theory Spec2Isabelle
  imports Main "HOL-Library.Word" "HOL-Library.Monad_Syntax"
begin

unbundle bit_operations_syntax

section \<open>Machine types and constants (blake3.h)\<close>

type_synonym u8 = "8 word"
type_synonym u32 = "32 word"
type_synonym u64 = "64 word"

abbreviation (input) BLAKE3_KEY_LEN :: nat where "BLAKE3_KEY_LEN \<equiv> 32"
abbreviation (input) BLAKE3_OUT_LEN :: nat where "BLAKE3_OUT_LEN \<equiv> 32"
abbreviation (input) BLAKE3_BLOCK_LEN :: nat where "BLAKE3_BLOCK_LEN \<equiv> 64"
abbreviation (input) BLAKE3_CHUNK_LEN :: nat where "BLAKE3_CHUNK_LEN \<equiv> 1024"
abbreviation (input) BLAKE3_MAX_DEPTH :: nat where "BLAKE3_MAX_DEPTH \<equiv> 54"

text \<open>\<^verbatim>\<open>enum blake3_flags\<close>: the domain separation bits, as the bytes the code passes around.\<close>

definition CHUNK_START :: u8 where "CHUNK_START = 1"
definition CHUNK_END :: u8 where "CHUNK_END = 2"
definition PARENT :: u8 where "PARENT = 4"
definition ROOT :: u8 where "ROOT = 8"
definition KEYED_HASH :: u8 where "KEYED_HASH = 16"
definition DERIVE_KEY_CONTEXT :: u8 where "DERIVE_KEY_CONTEXT = 32"
definition DERIVE_KEY_MATERIAL :: u8 where "DERIVE_KEY_MATERIAL = 64"

definition IV :: "u32 list" where
  "IV = [0x6A09E667, 0xBB67AE85, 0x3C6EF372, 0xA54FF53A,
         0x510E527F, 0x9B05688C, 0x1F83D9AB, 0x5BE0CD19]"

definition MSG_SCHEDULE :: "nat list list" where
  "MSG_SCHEDULE =
   [[0, 1, 2, 3, 4, 5, 6, 7, 8, 9, 10, 11, 12, 13, 14, 15],
    [2, 6, 3, 10, 7, 0, 4, 13, 1, 11, 12, 5, 9, 14, 15, 8],
    [3, 4, 10, 12, 13, 2, 7, 14, 6, 5, 9, 0, 11, 15, 8, 1],
    [10, 7, 12, 9, 14, 3, 13, 15, 4, 0, 11, 2, 5, 8, 1, 6],
    [12, 13, 9, 11, 15, 10, 14, 8, 7, 2, 5, 3, 0, 1, 6, 4],
    [9, 14, 11, 5, 8, 12, 15, 1, 13, 3, 0, 10, 2, 6, 4, 7],
    [11, 15, 5, 0, 1, 9, 8, 6, 14, 10, 2, 12, 3, 4, 7, 13]]"

text \<open>
  The C structs. Arrays are lists of the declared size; \<^verbatim>\<open>cv_stack\<close> is the flat byte array
  of \<open>(BLAKE3_MAX_DEPTH + 1) * BLAKE3_OUT_LEN = 1760\<close> bytes, updated in place, so that
  entries above \<^verbatim>\<open>cv_stack_len\<close> keep whatever was written there before.
\<close>

record blake3_chunk_state =
  cv :: "u32 list"
  chunk_counter :: u64
  buf :: "u8 list"
  buf_len :: u8
  blocks_compressed :: u8
  flags :: u8

record blake3_hasher =
  key :: "u32 list"
  chunk :: blake3_chunk_state
  cv_stack_len :: u8
  cv_stack :: "u8 list"

section \<open>Memory helpers\<close>

text \<open>
  \<^verbatim>\<open>memcpy(dst + off, src, n)\<close> into a fixed array and a read of \<open>n\<close> bytes at an offset.
  An access that leaves the array is undefined behaviour in C; the model makes it the
  value \<open>None\<close>.
\<close>

definition write_bytes :: "u8 list \<Rightarrow> nat \<Rightarrow> u8 list \<Rightarrow> u8 list option" where
  "write_bytes dst off src =
     (if off + length src \<le> length dst
      then Some (take off dst @ src @ drop (off + length src) dst)
      else None)"

text \<open>\<open>a - b\<close> in \<^verbatim>\<open>size_t\<close> (64 bits), for \<open>a, b < 2 ^ 64\<close>: it wraps around when \<open>b > a\<close>.\<close>

definition size_t_sub :: "nat \<Rightarrow> nat \<Rightarrow> nat" where
  "size_t_sub a b = (2 ^ 64 + a - b) mod 2 ^ 64"

definition read_bytes :: "u8 list \<Rightarrow> nat \<Rightarrow> nat \<Rightarrow> u8 list option" where
  "read_bytes mem off n =
     (if off + n \<le> length mem then Some (take n (drop off mem)) else None)"

section \<open>CompressionCore (blake3.c)\<close>

definition load32_le :: "u8 list \<Rightarrow> u32" where
  "load32_le src = ucast (src ! 0) OR push_bit 8 (ucast (src ! 1)) OR
                   push_bit 16 (ucast (src ! 2)) OR push_bit 24 (ucast (src ! 3))"

definition store32_le :: "u32 \<Rightarrow> u8 list" where
  "store32_le w = [ucast w, ucast (drop_bit 8 w), ucast (drop_bit 16 w), ucast (drop_bit 24 w)]"

definition rotr32 :: "u32 \<Rightarrow> nat \<Rightarrow> u32" where
  "rotr32 w c = drop_bit c w OR push_bit (32 - c) w"

text \<open>The quarter round \<^verbatim>\<open>g\<close>: eight assignments to the state array, in the order of the source.\<close>

definition g :: "u32 list \<Rightarrow> nat \<Rightarrow> nat \<Rightarrow> nat \<Rightarrow> nat \<Rightarrow> u32 \<Rightarrow> u32 \<Rightarrow> u32 list" where
  "g state a b c d x y =
    (let s1 = state[a := state ! a + state ! b + x];
         s2 = s1[d := rotr32 (s1 ! d XOR s1 ! a) 16];
         s3 = s2[c := s2 ! c + s2 ! d];
         s4 = s3[b := rotr32 (s3 ! b XOR s3 ! c) 12];
         s5 = s4[a := s4 ! a + s4 ! b + y];
         s6 = s5[d := rotr32 (s5 ! d XOR s5 ! a) 8];
         s7 = s6[c := s6 ! c + s6 ! d];
         s8 = s7[b := rotr32 (s7 ! b XOR s7 ! c) 7]
     in s8)"

definition round_fn :: "u32 list \<Rightarrow> u32 list \<Rightarrow> nat \<Rightarrow> u32 list" where
  "round_fn state msg round =
    (let schedule = MSG_SCHEDULE ! round;
         s1 = g state 0 4 8 12 (msg ! (schedule ! 0)) (msg ! (schedule ! 1));
         s2 = g s1 1 5 9 13 (msg ! (schedule ! 2)) (msg ! (schedule ! 3));
         s3 = g s2 2 6 10 14 (msg ! (schedule ! 4)) (msg ! (schedule ! 5));
         s4 = g s3 3 7 11 15 (msg ! (schedule ! 6)) (msg ! (schedule ! 7));
         s5 = g s4 0 5 10 15 (msg ! (schedule ! 8)) (msg ! (schedule ! 9));
         s6 = g s5 1 6 11 12 (msg ! (schedule ! 10)) (msg ! (schedule ! 11));
         s7 = g s6 2 7 8 13 (msg ! (schedule ! 12)) (msg ! (schedule ! 13));
         s8 = g s7 3 4 9 14 (msg ! (schedule ! 14)) (msg ! (schedule ! 15))
     in s8)"

text \<open>\<^verbatim>\<open>for (i = 0; i < 16; i++) msg[i] = load32_le(block + 4 * i)\<close>: \<open>n\<close> words from the pointer on.\<close>

fun load_words :: "u8 list \<Rightarrow> nat \<Rightarrow> u32 list" where
  "load_words block 0 = []"
| "load_words block (Suc n) = load32_le block # load_words (drop 4 block) n"

text \<open>\<^verbatim>\<open>for (round = 0; round < 7; round++) round_fn(state, msg, round)\<close>: \<open>n\<close> rounds from \<open>round\<close> on.\<close>

fun rounds :: "u32 list \<Rightarrow> u32 list \<Rightarrow> nat \<Rightarrow> nat \<Rightarrow> u32 list" where
  "rounds state msg round 0 = state"
| "rounds state msg round (Suc n) = rounds (round_fn state msg round) msg (Suc round) n"

definition compress_pre :: "u32 list \<Rightarrow> u8 list \<Rightarrow> u8 \<Rightarrow> u64 \<Rightarrow> u8 \<Rightarrow> u32 list" where
  "compress_pre cv0 block block_len counter fl =
    (let msg = load_words block 16;
         state = [cv0 ! 0, cv0 ! 1, cv0 ! 2, cv0 ! 3, cv0 ! 4, cv0 ! 5, cv0 ! 6, cv0 ! 7,
                  IV ! 0, IV ! 1, IV ! 2, IV ! 3,
                  ucast counter, ucast (drop_bit 32 counter), ucast block_len, ucast fl]
     in rounds state msg 0 7)"

definition compress_in_place :: "u32 list \<Rightarrow> u8 list \<Rightarrow> u8 \<Rightarrow> u64 \<Rightarrow> u8 \<Rightarrow> u32 list" where
  "compress_in_place cv0 block block_len counter fl =
    (let state = compress_pre cv0 block block_len counter fl
     in [state ! 0 XOR state ! 8, state ! 1 XOR state ! 9, state ! 2 XOR state ! 10,
         state ! 3 XOR state ! 11, state ! 4 XOR state ! 12, state ! 5 XOR state ! 13,
         state ! 6 XOR state ! 14, state ! 7 XOR state ! 15])"

text \<open>
  The two output loops of \<^verbatim>\<open>compress_xof\<close>, as one recursion over the word index:
  words 0..7 are \<open>state[i] ^ state[i + 8]\<close>, words 8..15 are \<open>state[i] ^ cv[i - 8]\<close>.
\<close>

fun xof_words :: "u32 list \<Rightarrow> u32 list \<Rightarrow> nat \<Rightarrow> nat \<Rightarrow> u8 list" where
  "xof_words state cv0 i 0 = []"
| "xof_words state cv0 i (Suc n) =
     store32_le (if i < 8 then state ! i XOR state ! (i + 8) else state ! i XOR cv0 ! (i - 8))
     @ xof_words state cv0 (Suc i) n"

definition compress_xof :: "u32 list \<Rightarrow> u8 list \<Rightarrow> u8 \<Rightarrow> u64 \<Rightarrow> u8 \<Rightarrow> u8 list" where
  "compress_xof cv0 block block_len counter fl =
    (let state = compress_pre cv0 block block_len counter fl
     in xof_words state cv0 0 16)"

text \<open>\<^verbatim>\<open>for (i = 0; i < 8; i++) store32_le(&dst[4 * i], words[i])\<close>: the 32 bytes of a chaining value.\<close>

definition store_cv :: "u32 list \<Rightarrow> u8 list" where
  "store_cv ws = concat (map store32_le (take 8 ws))"

section \<open>ChunkState\<close>

definition chunk_state_init :: "u32 list \<Rightarrow> u8 \<Rightarrow> blake3_chunk_state" where
  "chunk_state_init k fl =
     \<lparr>cv = k, chunk_counter = 0, buf = replicate BLAKE3_BLOCK_LEN 0, buf_len = 0,
      blocks_compressed = 0, flags = fl\<rparr>"

definition chunk_state_len :: "blake3_chunk_state \<Rightarrow> nat" where
  "chunk_state_len self = BLAKE3_BLOCK_LEN * unat (blocks_compressed self) + unat (buf_len self)"

text \<open>
  \<^verbatim>\<open>chunk_state_fill_buf\<close>: \<open>take = BLAKE3_BLOCK_LEN - buf_len\<close> is computed in \<^verbatim>\<open>size_t\<close>
  (64 bits, wrapping when \<open>buf_len > 64\<close>), capped by the input length; the bytes are
  copied behind the buffered ones and \<open>buf_len\<close> grows by \<open>(uint8_t) take\<close>. Returns the
  new state and \<open>take\<close>.
\<close>

definition chunk_state_fill_buf ::
  "blake3_chunk_state \<Rightarrow> u8 list \<Rightarrow> (blake3_chunk_state \<times> nat) option" where
  "chunk_state_fill_buf self input =
     (let take0 = size_t_sub BLAKE3_BLOCK_LEN (unat (buf_len self));
          tk = (if take0 > length input then length input else take0)
      in case write_bytes (buf self) (unat (buf_len self)) (take tk input) of
           None \<Rightarrow> None
         | Some b \<Rightarrow> Some (self\<lparr>buf := b, buf_len := buf_len self + of_nat tk\<rparr>, tk))"

definition chunk_state_maybe_start_flag :: "blake3_chunk_state \<Rightarrow> u8" where
  "chunk_state_maybe_start_flag self = (if blocks_compressed self = 0 then CHUNK_START else 0)"

text \<open>The \<^verbatim>\<open>while (input_len > BLAKE3_BLOCK_LEN)\<close> loop of \<^verbatim>\<open>chunk_state_update\<close>.\<close>

function chunk_state_update_loop ::
  "blake3_chunk_state \<Rightarrow> u8 list \<Rightarrow> blake3_chunk_state \<times> u8 list" where
  "chunk_state_update_loop self input =
     (if length input > BLAKE3_BLOCK_LEN
      then chunk_state_update_loop
             (self\<lparr>cv := compress_in_place (cv self) (take BLAKE3_BLOCK_LEN input) 64
                           (chunk_counter self) (flags self OR chunk_state_maybe_start_flag self),
                   blocks_compressed := blocks_compressed self + 1\<rparr>)
             (drop BLAKE3_BLOCK_LEN input)
      else (self, input))"
  by pat_completeness auto
termination
  by (relation "measure (\<lambda>(self, input). length input)") auto

definition chunk_state_update :: "blake3_chunk_state \<Rightarrow> u8 list \<Rightarrow> blake3_chunk_state option" where
  "chunk_state_update self input =
     (case (if buf_len self > 0
            then (case chunk_state_fill_buf self input of
                    None \<Rightarrow> None
                  | Some (s1, tk) \<Rightarrow>
                      (if length input - tk > 0
                       then Some (s1\<lparr>cv := compress_in_place (cv s1) (buf s1) 64 (chunk_counter s1)
                                             (flags s1 OR chunk_state_maybe_start_flag s1),
                                     blocks_compressed := blocks_compressed s1 + 1,
                                     buf_len := 0,
                                     buf := replicate BLAKE3_BLOCK_LEN 0\<rparr>, drop tk input)
                       else Some (s1, drop tk input)))
            else Some (self, input)) of
        None \<Rightarrow> None
      | Some (s2, input2) \<Rightarrow>
          (case chunk_state_update_loop s2 input2 of
             (s3, input3) \<Rightarrow> map_option fst (chunk_state_fill_buf s3 input3)))"

definition chunk_state_output :: "blake3_chunk_state \<Rightarrow> u8 list" where
  "chunk_state_output self =
     (let block_flags = flags self OR chunk_state_maybe_start_flag self OR CHUNK_END;
          wide_buf = compress_xof (cv self) (buf self) (buf_len self) (chunk_counter self) block_flags
      in take BLAKE3_OUT_LEN wide_buf)"

section \<open>HasherState and tree reduction\<close>

text \<open>
  The initialisers write \<^verbatim>\<open>key\<close>, \<^verbatim>\<open>chunk\<close> and \<^verbatim>\<open>cv_stack_len\<close> of the struct they are given and
  leave the bytes of \<^verbatim>\<open>cv_stack\<close> as they were.
\<close>

definition blake3_hasher_init :: "blake3_hasher \<Rightarrow> blake3_hasher" where
  "blake3_hasher_init self = self\<lparr>key := IV, chunk := chunk_state_init IV 0, cv_stack_len := 0\<rparr>"

definition blake3_hasher_init_keyed :: "blake3_hasher \<Rightarrow> u8 list \<Rightarrow> blake3_hasher" where
  "blake3_hasher_init_keyed self k =
     (let key_words = load_words k 8
      in self\<lparr>key := key_words, chunk := chunk_state_init key_words KEYED_HASH, cv_stack_len := 0\<rparr>)"

text \<open>\<^verbatim>\<open>__builtin_popcountll\<close>: the number of one bits of a 64-bit value.\<close>

fun popcount_nat :: "nat \<Rightarrow> nat" where
  "popcount_nat n = (if n = 0 then 0 else n mod 2 + popcount_nat (n div 2))"

declare popcount_nat.simps [simp del]

definition popcountll :: "u64 \<Rightarrow> nat" where
  "popcountll w = popcount_nat (unat w)"

text \<open>
  \<^verbatim>\<open>hasher_merge_cv_stack\<close>. The parent block is the 64 bytes at entry \<open>cv_stack_len - 2\<close>
  (an \<^verbatim>\<open>int\<close> expression: negative, hence out of the array, when \<open>cv_stack_len < 2\<close>); the parent
  chaining value is stored at entry \<open>cv_stack_len - 1\<close> after the decrement.
\<close>

function hasher_merge_cv_stack :: "blake3_hasher \<Rightarrow> u64 \<Rightarrow> blake3_hasher option" where
  "hasher_merge_cv_stack self total_len =
     (if unat (cv_stack_len self) > popcountll total_len
      then (if unat (cv_stack_len self) < 2 then None
            else (case read_bytes (cv_stack self) ((unat (cv_stack_len self) - 2) * BLAKE3_OUT_LEN)
                         BLAKE3_BLOCK_LEN of
                    None \<Rightarrow> None
                  | Some parent_block \<Rightarrow>
                      (case write_bytes (cv_stack self)
                              ((unat (cv_stack_len self - 1) - 1) * BLAKE3_OUT_LEN)
                              (store_cv (compress_in_place (key self) parent_block 64 0
                                           (flags (chunk self) OR PARENT))) of
                         None \<Rightarrow> None
                       | Some st \<Rightarrow>
                           hasher_merge_cv_stack
                             (self\<lparr>cv_stack_len := cv_stack_len self - 1, cv_stack := st\<rparr>)
                             total_len)))
      else Some self)"
  by pat_completeness auto
termination
  by (relation "measure (\<lambda>(self, total_len). unat (cv_stack_len self))")
     (auto simp: unat_sub word_le_nat_alt unat_gt_0 not_less)

definition hasher_push_cv :: "blake3_hasher \<Rightarrow> u8 list \<Rightarrow> u64 \<Rightarrow> blake3_hasher option" where
  "hasher_push_cv self new_cv counter =
     (case hasher_merge_cv_stack self counter of
        None \<Rightarrow> None
      | Some s \<Rightarrow>
          (case write_bytes (cv_stack s) (unat (cv_stack_len s) * BLAKE3_OUT_LEN)
                  (take BLAKE3_OUT_LEN new_cv) of
             None \<Rightarrow> None
           | Some st \<Rightarrow> Some (s\<lparr>cv_stack := st, cv_stack_len := cv_stack_len s + 1\<rparr>)))"

text \<open>
  The body of the \<^verbatim>\<open>while (input_len > 0)\<close> loop of \<^verbatim>\<open>blake3_hasher_update\<close>, in its two
  halves. First: when the chunk is full, its chaining value is pushed and a fresh chunk
  state with the next counter replaces it.
\<close>

definition hasher_roll_chunk :: "blake3_hasher \<Rightarrow> blake3_hasher option" where
  "hasher_roll_chunk self =
     (if chunk_state_len (chunk self) = BLAKE3_CHUNK_LEN
      then (let chunk_cv = chunk_state_output (chunk self);
                total_chunks = chunk_counter (chunk self) + 1
            in case hasher_push_cv self chunk_cv total_chunks of
                 None \<Rightarrow> None
               | Some s \<Rightarrow>
                   Some (s\<lparr>chunk := (chunk_state_init (key s) (flags (chunk s)))
                                      \<lparr>chunk_counter := total_chunks\<rparr>\<rparr>))
      else Some self)"

text \<open>
  Second: \<open>want\<close> and \<open>take\<close> bytes go to the chunk state. The result is the state after
  the pass and the input that is left.
\<close>

definition hasher_update_pass ::
  "blake3_hasher \<Rightarrow> u8 list \<Rightarrow> (blake3_hasher \<times> u8 list) option" where
  "hasher_update_pass self input =
     (case hasher_roll_chunk self of
        None \<Rightarrow> None
      | Some s1 \<Rightarrow>
          (let want = size_t_sub BLAKE3_CHUNK_LEN (chunk_state_len (chunk s1));
               tk = (if want < length input then want else length input)
           in case chunk_state_update (chunk s1) (take tk input) of
                None \<Rightarrow> None
              | Some c \<Rightarrow> Some (s1\<lparr>chunk := c\<rparr>, drop tk input)))"

function blake3_hasher_update :: "blake3_hasher \<Rightarrow> u8 list \<Rightarrow> blake3_hasher option" where
  "blake3_hasher_update self input =
     (if length input > 0
      then (case hasher_update_pass self input of
              None \<Rightarrow> None
            | Some (s, rest) \<Rightarrow> blake3_hasher_update s rest)
      else Some self)"
  by pat_completeness auto
termination
proof (relation "measure (\<lambda>(self, input). length input)", goal_cases)
  case 1
  show ?case by simp
next
  case (2 self input x2 s rest)
  have len_bound: "chunk_state_len c < 2 ^ 64 + 1024" for c
  proof -
    have "unat (blocks_compressed c) < 256" "unat (buf_len c) < 256"
      using unsigned_less [of "blocks_compressed c"] unsigned_less [of "buf_len c"] by simp_all
    then show ?thesis by (simp add: chunk_state_len_def)
  qed
  have want_pos: "0 < size_t_sub 1024 (chunk_state_len c)" if "chunk_state_len c \<noteq> 1024" for c
  proof (cases "chunk_state_len c < 1024")
    case True
    then have "2 ^ 64 + 1024 - chunk_state_len c = 2 ^ 64 + (1024 - chunk_state_len c)"
      by simp
    then have "size_t_sub 1024 (chunk_state_len c) = (1024 - chunk_state_len c) mod 2 ^ 64"
      unfolding size_t_sub_def by (metis mod_add_self1)
    with True show ?thesis by simp
  next
    case False
    with that have "1024 < chunk_state_len c" by simp
    with len_bound [of c] show ?thesis by (simp add: size_t_sub_def)
  qed
  have roll: "chunk_state_len (chunk s1) \<noteq> 1024" if "hasher_roll_chunk h = Some s1" for h s1
    using that
    by (auto simp: hasher_roll_chunk_def Let_def chunk_state_len_def chunk_state_init_def
             split: if_splits option.splits)
  from 2 obtain s1 where s1: "hasher_roll_chunk self = Some s1"
    and rest: "rest = drop (if size_t_sub 1024 (chunk_state_len (chunk s1)) < length input
                              then size_t_sub 1024 (chunk_state_len (chunk s1))
                              else length input) input"
    by (auto simp: hasher_update_pass_def Let_def split: option.splits)
  from want_pos [OF roll [OF s1]] rest 2(1) show ?case by (auto split: if_splits)
qed

text \<open>The \<^verbatim>\<open>while (out_len > 0)\<close> loop of the single-chunk branch of \<^verbatim>\<open>blake3_hasher_finalize_seek\<close>.\<close>

function xof_loop :: "blake3_chunk_state \<Rightarrow> u8 \<Rightarrow> u64 \<Rightarrow> nat \<Rightarrow> u8 list" where
  "xof_loop c block_flags output_block_counter out_len =
     (if out_len > 0
      then take (if out_len < 64 then out_len else 64)
                (compress_xof (cv c) (buf c) (buf_len c) output_block_counter block_flags)
           @ xof_loop c block_flags (output_block_counter + 1)
                (out_len - (if out_len < 64 then out_len else 64))
      else [])"
  by pat_completeness auto
termination
  by (relation "measure (\<lambda>(c, block_flags, output_block_counter, out_len). out_len)") auto

text \<open>
  The \<^verbatim>\<open>while (num_cvs > 0)\<close> loop of the other branch: the stack entry \<open>num_cvs - 1\<close> is
  copied into the left half of the parent block, the block is compressed (with \<open>ROOT\<close> when
  \<open>num_cvs = 1\<close>) and the result is stored in its right half.
\<close>

function finalize_fold :: "blake3_hasher \<Rightarrow> u8 list \<Rightarrow> nat \<Rightarrow> u8 list option" where
  "finalize_fold self parent_block num_cvs =
     (if num_cvs > 0
      then (case read_bytes (cv_stack self) ((num_cvs - 1) * BLAKE3_OUT_LEN) BLAKE3_OUT_LEN of
              None \<Rightarrow> None
            | Some left \<Rightarrow>
                finalize_fold self
                  (left @ store_cv (compress_in_place (key self) (left @ drop BLAKE3_OUT_LEN parent_block)
                                      64 0
                                      (if num_cvs = 1 then flags (chunk self) OR PARENT OR ROOT
                                       else flags (chunk self) OR PARENT)))
                  (num_cvs - 1))
      else Some parent_block)"
  by pat_completeness auto
termination
  by (relation "measure (\<lambda>(self, parent_block, num_cvs). num_cvs)") auto

text \<open>
  \<^verbatim>\<open>blake3_hasher_finalize_seek\<close> returns the bytes it writes to \<^verbatim>\<open>out\<close>, in order. The local
  \<^verbatim>\<open>parent_block\<close> starts with its left half unwritten (zeros here; the loop overwrites it
  before the first compression).
\<close>

definition blake3_hasher_finalize_seek :: "blake3_hasher \<Rightarrow> u64 \<Rightarrow> nat \<Rightarrow> u8 list option" where
  "blake3_hasher_finalize_seek self seek out_len =
     (if out_len = 0 then Some []
      else if cv_stack_len self = 0
      then (let block_flags = flags (chunk self) OR chunk_state_maybe_start_flag (chunk self)
                                OR CHUNK_END OR ROOT;
                output_block_counter = seek div 64;
                offset_within_block = unat (seek mod 64);
                wide_buf = compress_xof (cv (chunk self)) (buf (chunk self)) (buf_len (chunk self))
                             output_block_counter block_flags;
                available_bytes = 64 - offset_within_block;
                copy_len = (if out_len < available_bytes then out_len else available_bytes)
            in Some (take copy_len (drop offset_within_block wide_buf)
                     @ xof_loop (chunk self) block_flags (output_block_counter + 1)
                         (out_len - copy_len)))
      else (let chunk_cv = chunk_state_output (chunk self);
                parent_block = replicate BLAKE3_OUT_LEN 0 @ chunk_cv;
                num_cvs = unat (cv_stack_len self)
            in case finalize_fold self parent_block num_cvs of
                 None \<Rightarrow> None
               | Some pb \<Rightarrow>
                   Some (take (if out_len < BLAKE3_OUT_LEN then out_len else BLAKE3_OUT_LEN)
                           (drop BLAKE3_OUT_LEN pb))))"

definition blake3_hasher_finalize :: "blake3_hasher \<Rightarrow> nat \<Rightarrow> u8 list option" where
  "blake3_hasher_finalize self out_len = blake3_hasher_finalize_seek self 0 out_len"

definition blake3_hasher_reset :: "blake3_hasher \<Rightarrow> blake3_hasher" where
  "blake3_hasher_reset self =
     self\<lparr>chunk := chunk_state_init (key self)
                     (flags (chunk self) AND (KEYED_HASH OR DERIVE_KEY_MATERIAL)),
          cv_stack_len := 0\<rparr>"

text \<open>
  A hasher declared as a local variable (\<^verbatim>\<open>blake3_hasher hasher;\<close>) before its initialiser
  runs: its bytes are indeterminate in C, and zero here.
\<close>

definition auto_hasher :: blake3_hasher where
  "auto_hasher =
     \<lparr>key = replicate 8 0,
      chunk = \<lparr>cv = replicate 8 0, chunk_counter = 0, buf = replicate BLAKE3_BLOCK_LEN 0,
               buf_len = 0, blocks_compressed = 0, flags = 0\<rparr>,
      cv_stack_len = 0,
      cv_stack = replicate ((BLAKE3_MAX_DEPTH + 1) * BLAKE3_OUT_LEN) 0\<rparr>"

definition blake3_hasher_init_derive_key_raw ::
  "blake3_hasher \<Rightarrow> u8 list \<Rightarrow> blake3_hasher option" where
  "blake3_hasher_init_derive_key_raw self context =
     (let context_hasher =
            auto_hasher\<lparr>key := IV, chunk := chunk_state_init IV DERIVE_KEY_CONTEXT, cv_stack_len := 0\<rparr>
      in case blake3_hasher_update context_hasher context of
           None \<Rightarrow> None
         | Some h \<Rightarrow>
             (case blake3_hasher_finalize h BLAKE3_KEY_LEN of
                None \<Rightarrow> None
              | Some context_key \<Rightarrow>
                  (let context_key_words = load_words context_key 8
                   in Some (self\<lparr>key := context_key_words,
                                  chunk := chunk_state_init context_key_words DERIVE_KEY_MATERIAL,
                                  cv_stack_len := 0\<rparr>))))"

text \<open>\<^verbatim>\<open>blake3_hasher_init_derive_key\<close>: the context is a C string, read up to its first NUL.\<close>

definition blake3_hasher_init_derive_key :: "blake3_hasher \<Rightarrow> u8 list \<Rightarrow> blake3_hasher option" where
  "blake3_hasher_init_derive_key self context =
     blake3_hasher_init_derive_key_raw self (takeWhile (\<lambda>b. b \<noteq> 0) context)"

definition blake3_hash :: "u8 list \<Rightarrow> u8 list option" where
  "blake3_hash input =
     (case blake3_hasher_update (blake3_hasher_init auto_hasher) input of
        None \<Rightarrow> None
      | Some hasher \<Rightarrow> blake3_hasher_finalize hasher BLAKE3_OUT_LEN)"

section \<open>Mining adapter (Blake3DCR.cpp)\<close>

abbreviation (input) BLOCK_HEADER_SIZE :: nat where "BLOCK_HEADER_SIZE \<equiv> 180"
abbreviation (input) HASH_SIZE :: nat where "HASH_SIZE \<equiv> 32"
abbreviation (input) NONCE_OFFSET :: nat where "NONCE_OFFSET \<equiv> 140"

definition Blake3DCR_hash :: "u8 list \<Rightarrow> u8 list option" where
  "Blake3DCR_hash header = blake3_hash header"

text \<open>
  The local buffer \<^verbatim>\<open>work\<close> of \<^verbatim>\<open>Blake3DCR::calculate\<close> after the \<^verbatim>\<open>memcpy\<close> of the header and the
  four byte stores of the nonce. The header is only read.
\<close>

definition calculate_work :: "u8 list \<Rightarrow> u32 \<Rightarrow> u8 list option" where
  "calculate_work header nonce =
     (case read_bytes header 0 BLOCK_HEADER_SIZE of
        None \<Rightarrow> None
      | Some work \<Rightarrow>
          Some (work[NONCE_OFFSET := ucast nonce,
                     NONCE_OFFSET + 1 := ucast (drop_bit 8 nonce),
                     NONCE_OFFSET + 2 := ucast (drop_bit 16 nonce),
                     NONCE_OFFSET + 3 := ucast (drop_bit 24 nonce)]))"

definition calculate :: "u8 list \<Rightarrow> u32 \<Rightarrow> u8 list option" where
  "calculate header nonce =
     (case calculate_work header nonce of
        None \<Rightarrow> None
      | Some work \<Rightarrow> blake3_hash work)"

text \<open>
  \<^verbatim>\<open>Blake3DCR::checkDifficulty\<close>: the loop from index \<open>i\<close> on. A read past the end of either
  array is \<open>None\<close>.
\<close>

function checkDifficulty_from :: "u8 list \<Rightarrow> u8 list \<Rightarrow> nat \<Rightarrow> bool option" where
  "checkDifficulty_from hash target i =
     (if i < 32
      then (if i < length hash \<and> i < length target
            then (if hash ! i < target ! i then Some True
                  else if hash ! i > target ! i then Some False
                  else checkDifficulty_from hash target (i + 1))
            else None)
      else Some True)"
  by pat_completeness auto
termination
  by (relation "measure (\<lambda>(hash, target, i). 32 - i)") auto

definition checkDifficulty :: "u8 list \<Rightarrow> u8 list \<Rightarrow> bool option" where
  "checkDifficulty hash target = checkDifficulty_from hash target 0"

declare chunk_state_update_loop.simps [simp del]
declare hasher_merge_cv_stack.simps [simp del]
declare blake3_hasher_update.simps [simp del]
declare xof_loop.simps [simp del]
declare finalize_fold.simps [simp del]
declare checkDifficulty_from.simps [simp del]

section \<open>Specification-level notions\<close>

text \<open>The value of a byte array read as a big-endian unsigned integer.\<close>

fun be_value :: "u8 list \<Rightarrow> nat" where
  "be_value [] = 0"
| "be_value (b # bs) = unat b * 256 ^ length bs + be_value bs"

text \<open>The value of a byte array read as a little-endian unsigned integer.\<close>

fun le_value :: "u8 list \<Rightarrow> nat" where
  "le_value [] = 0"
| "le_value (b # bs) = unat b + 256 * le_value bs"

text \<open>
  The output stream of a single-chunk hasher: block \<open>i\<close> is the wide compression of the
  chunk's buffer with \<open>CHUNK_END\<close> and \<open>ROOT\<close> set and block counter \<open>i\<close>; the stream is the
  concatenation of the blocks.
\<close>

definition root_block :: "blake3_chunk_state \<Rightarrow> nat \<Rightarrow> u8 list" where
  "root_block c i =
     compress_xof (cv c) (buf c) (buf_len c) (of_nat i)
       (flags c OR chunk_state_maybe_start_flag c OR CHUNK_END OR ROOT)"

definition root_stream :: "blake3_chunk_state \<Rightarrow> nat \<Rightarrow> u8 list" where
  "root_stream c n = concat (map (root_block c) [0..<n])"

text \<open>
  The root of the multi-chunk branch, in the words of the specification: the chunk's own
  output is the rightmost leaf; it is combined with the stack entries from the top (most
  recent) to the bottom, each combination a parent compression, and only the last one
  (with the bottom entry) has \<open>ROOT\<close> set. Entries are listed bottom first.
\<close>

definition parent_cv_bytes :: "u32 list \<Rightarrow> u8 \<Rightarrow> u8 list \<Rightarrow> u8 list \<Rightarrow> u8 list" where
  "parent_cv_bytes k fl left right = store_cv (compress_in_place k (left @ right) 64 0 fl)"

fun merge_right :: "u32 list \<Rightarrow> u8 \<Rightarrow> u8 list list \<Rightarrow> u8 list \<Rightarrow> u8 list" where
  "merge_right k fl [] r = r"
| "merge_right k fl (e # es) r = parent_cv_bytes k (fl OR PARENT) e (merge_right k fl es r)"

definition root_of_stack :: "u32 list \<Rightarrow> u8 \<Rightarrow> u8 list list \<Rightarrow> u8 list \<Rightarrow> u8 list" where
  "root_of_stack k fl es r =
     (case es of [] \<Rightarrow> r
      | e # es' \<Rightarrow> parent_cv_bytes k (fl OR PARENT OR ROOT) e (merge_right k fl es' r))"

definition stack_entry :: "blake3_hasher \<Rightarrow> nat \<Rightarrow> u8 list" where
  "stack_entry self i = take 32 (drop (i * 32) (cv_stack self))"

definition stack_entries :: "blake3_hasher \<Rightarrow> nat \<Rightarrow> u8 list list" where
  "stack_entries self n = map (stack_entry self) [0..<n]"

text \<open>
  Well-formed chunk states: the buffer has its 64 bytes, of which the first \<open>buf_len\<close> are
  pending input and the rest are zero; the chunk holds at most 1024 bytes; and an empty
  buffer means that nothing was compressed yet. \<open>chunk_pending\<close> is the pending input,
  \<open>chunk_flush\<close> the state with the buffer emptied, and \<open>absorb\<close> runs the block loop on all the
  data and buffers what the loop leaves.
\<close>

definition chunk_ok :: "blake3_chunk_state \<Rightarrow> bool" where
  "chunk_ok c \<longleftrightarrow>
     length (buf c) = 64 \<and> unat (buf_len c) \<le> 64
     \<and> drop (unat (buf_len c)) (buf c) = replicate (64 - unat (buf_len c)) 0
     \<and> chunk_state_len c \<le> 1024
     \<and> (if buf_len c = 0 then blocks_compressed c = 0 else True)"

definition chunk_pending :: "blake3_chunk_state \<Rightarrow> u8 list" where
  "chunk_pending c = take (unat (buf_len c)) (buf c)"

definition chunk_flush :: "blake3_chunk_state \<Rightarrow> blake3_chunk_state" where
  "chunk_flush c = c\<lparr>buf := replicate 64 0, buf_len := 0\<rparr>"

definition absorb :: "blake3_chunk_state \<Rightarrow> u8 list \<Rightarrow> blake3_chunk_state" where
  "absorb c data =
     (case chunk_state_update_loop c data of
        (c', r) \<Rightarrow> c'\<lparr>buf := r @ replicate (64 - length r) 0, buf_len := of_nat (length r)\<rparr>)"

text \<open>
  The hasher states of the lifecycle: created by an initialiser, changed by
  \<^verbatim>\<open>blake3_hasher_update\<close> (where it returns) and by \<^verbatim>\<open>blake3_hasher_reset\<close>.
\<close>

inductive reachable :: "blake3_hasher \<Rightarrow> bool" where
  init: "reachable (blake3_hasher_init self)"
| init_keyed: "reachable (blake3_hasher_init_keyed self k)"
| init_derive_key_raw: "blake3_hasher_init_derive_key_raw self context = Some h \<Longrightarrow> reachable h"
| init_derive_key: "blake3_hasher_init_derive_key self context = Some h \<Longrightarrow> reachable h"
| update: "reachable h \<Longrightarrow> blake3_hasher_update h input = Some h' \<Longrightarrow> reachable h'"
| reset: "reachable h \<Longrightarrow> reachable (blake3_hasher_reset h)"

text \<open>
  What the code keeps while it absorbs input. \<open>stack_len_after n\<close> is the number of stack
  entries after the chaining values of \<open>n\<close> chunks were pushed; \<open>total_len\<close> is the number of
  bytes absorbed so far.
\<close>

definition stack_len_after :: "nat \<Rightarrow> nat" where
  "stack_len_after n = (if n < 2 then n else popcount_nat n + 1)"

definition total_len :: "blake3_hasher \<Rightarrow> nat" where
  "total_len h = 1024 * unat (chunk_counter (chunk h)) + chunk_state_len (chunk h)"

definition stack_ok :: "blake3_hasher \<Rightarrow> bool" where
  "stack_ok h \<longleftrightarrow>
     length (cv_stack h) = 1760
     \<and> unat (cv_stack_len h) = stack_len_after (unat (chunk_counter (chunk h)))"

definition hasher_ok :: "blake3_hasher \<Rightarrow> bool" where
  "hasher_ok h \<longleftrightarrow>
     chunk_ok (chunk h) \<and> stack_ok h
     \<and> (if chunk_counter (chunk h) = 0 then True else 0 < chunk_state_len (chunk h))"

text \<open>A sequence of \<^verbatim>\<open>blake3_hasher_update\<close> calls on one hasher, one call per list element.\<close>

fun update_calls :: "blake3_hasher \<Rightarrow> u8 list list \<Rightarrow> blake3_hasher option" where
  "update_calls h [] = Some h"
| "update_calls h (X # Xs) =
     (case blake3_hasher_update h X of None \<Rightarrow> None | Some h' \<Rightarrow> update_calls h' Xs)"

text \<open>
  The input of the BLAKE3 test vectors: byte \<open>i\<close> is \<open>i mod 251\<close>.
\<close>

definition test_input :: "nat \<Rightarrow> u8 list" where
  "test_input n = map (\<lambda>i. of_nat (i mod 251)) [0..<n]"

section \<open>Verification\<close>

subsection \<open>Update with no input\<close>

text \<open>
  C10: For every hasher state, \<^verbatim>\<open>blake3_hasher_update\<close> with a zero-length input returns the
  state it was given: the loop body does not run, so nothing is compressed, no chaining
  value is pushed and no field of the hasher or of its chunk state changes.
\<close>

theorem update_empty_input_identity:
  "blake3_hasher_update self [] = Some self"
  by (simp add: blake3_hasher_update.simps)

subsection \<open>Reset\<close>

text \<open>
  C8: For every hasher state, \<^verbatim>\<open>blake3_hasher_reset\<close> sets \<^verbatim>\<open>cv_stack_len\<close> to 0 and
  reinitialises the chunk state: chaining value reloaded from the key, zeroed block
  buffer, \<^verbatim>\<open>buf_len\<close>, \<^verbatim>\<open>blocks_compressed\<close> and \<^verbatim>\<open>chunk_counter\<close> 0, and flags equal to the
  previous flags masked to \<open>KEYED_HASH | DERIVE_KEY_MATERIAL\<close>. The key words and the bytes
  of \<^verbatim>\<open>cv_stack\<close> are the ones of the state before: no other field is altered.
\<close>

theorem reset_effect:
  "cv_stack_len (blake3_hasher_reset self) = 0
   \<and> chunk (blake3_hasher_reset self) =
       \<lparr>cv = key self, chunk_counter = 0, buf = replicate 64 0, buf_len = 0,
        blocks_compressed = 0,
        flags = flags (chunk self) AND (KEYED_HASH OR DERIVE_KEY_MATERIAL)\<rparr>
   \<and> key (blake3_hasher_reset self) = key self
   \<and> cv_stack (blake3_hasher_reset self) = cv_stack self
   \<and> blake3_hasher.more (blake3_hasher_reset self) = blake3_hasher.more self"
  by (simp add: blake3_hasher_reset_def chunk_state_init_def)

subsection \<open>Difficulty comparison\<close>

lemma be_value_less: "be_value bs < 256 ^ length bs"
proof (induction bs)
  case Nil
  show ?case by simp
next
  case (Cons b bs)
  have "unat b < 256" using unsigned_less [of b] by simp
  then have b: "Suc (unat b) \<le> 256" by simp
  have "unat b * 256 ^ length bs + be_value bs < unat b * 256 ^ length bs + 256 ^ length bs"
    using Cons by simp
  also have "\<dots> = Suc (unat b) * 256 ^ length bs" by simp
  also have "\<dots> \<le> 256 * 256 ^ length bs" using b by (rule mult_le_mono1)
  finally show ?case by simp
qed

lemma be_value_msb_less:
  assumes "a < b" and "length xs = length ys"
  shows "be_value (a # xs) < be_value (b # ys)"
proof -
  have "unat a < unat b" using assms(1) by (simp add: word_less_nat_alt)
  then have "Suc (unat a) * 256 ^ length xs \<le> unat b * 256 ^ length xs"
    by (intro mult_le_mono1) simp
  moreover have "be_value xs < 256 ^ length xs" by (rule be_value_less)
  ultimately show ?thesis using assms(2) by simp
qed

lemma checkDifficulty_from_correct:
  assumes "length hash = 32" and "length target = 32" and "i \<le> 32"
  shows "checkDifficulty_from hash target i
         = Some (be_value (drop i hash) \<le> be_value (drop i target))"
  using assms
proof (induction hash target i rule: checkDifficulty_from.induct)
  case (1 hash target i)
  show ?case
  proof (cases "i < 32")
    case False
    with 1 show ?thesis by (simp add: checkDifficulty_from.simps)
  next
    case True
    with 1 have dh: "drop i hash = hash ! i # drop (Suc i) hash"
      and dt: "drop i target = target ! i # drop (Suc i) target"
      by (simp_all add: Cons_nth_drop_Suc)
    have len: "length (drop (Suc i) hash) = length (drop (Suc i) target)"
      using 1 by simp
    have inb: "i < length hash \<and> i < length target" using True 1 by simp
    consider (lt) "hash ! i < target ! i" | (gt) "target ! i < hash ! i" | (eq) "hash ! i = target ! i"
      by (metis linorder_less_linear)
    then show ?thesis
    proof cases
      case lt
      have "be_value (drop i hash) < be_value (drop i target)"
        unfolding dh dt by (rule be_value_msb_less [OF lt len])
      then have "be_value (drop i hash) \<le> be_value (drop i target)" by simp
      moreover have "checkDifficulty_from hash target i = Some True"
        using True inb lt by (subst checkDifficulty_from.simps) simp
      ultimately show ?thesis by simp
    next
      case gt
      have "be_value (drop i target) < be_value (drop i hash)"
        unfolding dh dt by (rule be_value_msb_less [OF gt len [symmetric]])
      then have "\<not> be_value (drop i hash) \<le> be_value (drop i target)" by simp
      moreover have "\<not> hash ! i < target ! i" using gt by simp
      then have "checkDifficulty_from hash target i = Some False"
        using True inb gt by (subst checkDifficulty_from.simps) simp
      ultimately show ?thesis by simp
    next
      case eq
      have "checkDifficulty_from hash target i = checkDifficulty_from hash target (i + 1)"
        using True inb eq by (subst checkDifficulty_from.simps) simp
      also have "\<dots> = Some (be_value (drop (i + 1) hash) \<le> be_value (drop (i + 1) target))"
        using 1 True inb eq by simp
      also have "\<dots> = Some (be_value (drop i hash) \<le> be_value (drop i target))"
        unfolding dh dt using eq len by simp
      finally show ?thesis .
    qed
  qed
qed

text \<open>
  C4: For all 32-byte arrays \<open>hash\<close> and \<open>target\<close>, \<^verbatim>\<open>checkDifficulty\<close> returns true if and only
  if \<open>hash\<close>, read as a 256-bit big-endian integer, is less than or equal to \<open>target\<close> read
  the same way (so it is true on equality and when \<open>hash < target\<close>, false when
  \<open>hash > target\<close>).
\<close>

theorem checkDifficulty_iff_be_le:
  assumes "length hash = 32" and "length target = 32"
  shows "checkDifficulty hash target = Some (be_value hash \<le> be_value target)"
  using checkDifficulty_from_correct [OF assms, of 0] by (simp add: checkDifficulty_def)

text \<open>
  The three cases of the specification: an all-zero hash against a target ending in
  \<open>0x01\<close>, equal arrays, and a hash greater than the target in its last byte only.
\<close>

theorem checkDifficulty_iff_be_le_witness:
  "checkDifficulty [0, 0, 0, 0, 0, 0, 0, 0, 0, 0, 0, 0, 0, 0, 0, 0, 0, 0, 0, 0, 0, 0, 0, 0, 0, 0, 0, 0, 0, 0, 0, 0] [0, 0, 0, 0, 0, 0, 0, 0, 0, 0, 0, 0, 0, 0, 0, 0, 0, 0, 0, 0, 0, 0, 0, 0, 0, 0, 0, 0, 0, 0, 0, 1] = Some True
   \<and> checkDifficulty [0, 0, 0, 0, 0, 0, 0, 0, 0, 0, 0, 0, 0, 0, 0, 0, 0, 0, 0, 0, 0, 0, 0, 0, 0, 0, 0, 0, 0, 0, 0, 1] [0, 0, 0, 0, 0, 0, 0, 0, 0, 0, 0, 0, 0, 0, 0, 0, 0, 0, 0, 0, 0, 0, 0, 0, 0, 0, 0, 0, 0, 0, 0, 1] = Some True
   \<and> checkDifficulty [0, 0, 0, 0, 0, 0, 0, 0, 0, 0, 0, 0, 0, 0, 0, 0, 0, 0, 0, 0, 0, 0, 0, 0, 0, 0, 0, 0, 0, 0, 0, 2] [0, 0, 0, 0, 0, 0, 0, 0, 0, 0, 0, 0, 0, 0, 0, 0, 0, 0, 0, 0, 0, 0, 0, 0, 0, 0, 0, 0, 0, 0, 0, 1] = Some False"
  using checkDifficulty_iff_be_le [of "[0, 0, 0, 0, 0, 0, 0, 0, 0, 0, 0, 0, 0, 0, 0, 0, 0, 0, 0, 0, 0, 0, 0, 0, 0, 0, 0, 0, 0, 0, 0, 0]" "[0, 0, 0, 0, 0, 0, 0, 0, 0, 0, 0, 0, 0, 0, 0, 0, 0, 0, 0, 0, 0, 0, 0, 0, 0, 0, 0, 0, 0, 0, 0, 1]"]
        checkDifficulty_iff_be_le [of "[0, 0, 0, 0, 0, 0, 0, 0, 0, 0, 0, 0, 0, 0, 0, 0, 0, 0, 0, 0, 0, 0, 0, 0, 0, 0, 0, 0, 0, 0, 0, 1]" "[0, 0, 0, 0, 0, 0, 0, 0, 0, 0, 0, 0, 0, 0, 0, 0, 0, 0, 0, 0, 0, 0, 0, 0, 0, 0, 0, 0, 0, 0, 0, 1]"]
        checkDifficulty_iff_be_le [of "[0, 0, 0, 0, 0, 0, 0, 0, 0, 0, 0, 0, 0, 0, 0, 0, 0, 0, 0, 0, 0, 0, 0, 0, 0, 0, 0, 0, 0, 0, 0, 2]" "[0, 0, 0, 0, 0, 0, 0, 0, 0, 0, 0, 0, 0, 0, 0, 0, 0, 0, 0, 0, 0, 0, 0, 0, 0, 0, 0, 0, 0, 0, 0, 1]"]
  by simp

subsection \<open>Nonce injection\<close>

lemma le_value_store32_le: "le_value (store32_le w) = unat w"
proof -
  define n where "n = unat w"
  have n: "n < 4294967296" unfolding n_def using unsigned_less [of w] by simp
  have b0: "unat (ucast w :: u8) = n mod 256"
    by (simp add: n_def unsigned_ucast_eq take_bit_eq_mod)
  have b1: "unat (ucast (drop_bit 8 w) :: u8) = n div 256 mod 256"
    by (simp add: n_def unsigned_ucast_eq take_bit_eq_mod drop_bit_eq_div unat_div)
  have b2: "unat (ucast (drop_bit 16 w) :: u8) = n div 65536 mod 256"
    by (simp add: n_def unsigned_ucast_eq take_bit_eq_mod drop_bit_eq_div unat_div)
  have b3: "unat (ucast (drop_bit 24 w) :: u8) = n div 16777216 mod 256"
    by (simp add: n_def unsigned_ucast_eq take_bit_eq_mod drop_bit_eq_div unat_div)
  have d2: "n div 65536 = n div 256 div 256" by (simp add: div_mult2_eq [symmetric])
  have d3: "n div 16777216 = n div 256 div 256 div 256" by (simp add: div_mult2_eq [symmetric])
  have top: "n div 256 div 256 div 256 mod 256 = n div 256 div 256 div 256"
    using n by (simp add: div_mult2_eq [symmetric])
  have "le_value (store32_le w) = n mod 256 + 256 * (n div 256 mod 256
          + 256 * (n div 256 div 256 mod 256 + 256 * (n div 256 div 256 div 256)))"
    unfolding store32_le_def le_value.simps b0 b1 b2 b3 d2 d3 top by simp
  also have "\<dots> = n"
    by (simp only: mod_mult_div_eq)
  finally show ?thesis unfolding n_def .
qed

lemma nonce_update:
  assumes "length work = 180"
  shows "work[140 := a, 141 := b, 142 := c, 143 := d] = take 140 work @ [a, b, c, d] @ drop 144 work"
proof -
  have dec: "work = take 140 work @ [work ! 140, work ! 141, work ! 142, work ! 143] @ drop 144 work"
    using assms id_take_nth_drop [of 140 work] Cons_nth_drop_Suc [of 141 work]
      Cons_nth_drop_Suc [of 142 work] Cons_nth_drop_Suc [of 143 work]
    by simp
  have "(take 140 work @ [work ! 140, work ! 141, work ! 142, work ! 143] @ drop 144 work)
          [140 := a, 141 := b, 142 := c, 143 := d]
        = take 140 work @ [a, b, c, d] @ drop 144 work"
    using assms by (simp add: list_update_append)
  with dec show ?thesis by simp
qed


text \<open>
  C5: For every 180-byte header and every 32-bit nonce, \<^verbatim>\<open>calculate\<close> returns the one-shot
  default-mode \<^verbatim>\<open>blake3_hash\<close> of the 180-byte working copy that has the four bytes of the
  little-endian encoding of the nonce at offsets 140..143 and the bytes of the header at
  the other 176 offsets. The header is an argument that the function only reads.
\<close>

theorem calculate_hashes_nonce_injected_header:
  assumes "length header = 180"
  shows "length (store32_le nonce) = 4 \<and> le_value (store32_le nonce) = unat nonce
         \<and> calculate_work header nonce = Some (take 140 header @ store32_le nonce @ drop 144 header)
         \<and> calculate header nonce = blake3_hash (take 140 header @ store32_le nonce @ drop 144 header)"
proof -
  have rd: "read_bytes header 0 180 = Some header"
    using assms by (simp add: read_bytes_def)
  have idx: "(140::nat) + 1 = 141" "(140::nat) + 2 = 142" "(140::nat) + 3 = 143" by simp_all
  have w: "calculate_work header nonce = Some (take 140 header @ store32_le nonce @ drop 144 header)"
    unfolding calculate_work_def rd option.case idx nonce_update [OF assms] store32_le_def
    by (rule refl)
  have l: "length (store32_le nonce) = 4" by (simp add: store32_le_def)
  have v: "le_value (store32_le nonce) = unat nonce" by (rule le_value_store32_le)
  have c: "calculate header nonce = blake3_hash (take 140 header @ store32_le nonce @ drop 144 header)"
    unfolding calculate_def w option.case by (rule refl)
  from l v w c show ?thesis by (intro conjI)
qed


text \<open>Nonce \<open>0x01020304\<close> in an all-zero header: bytes 04, 03, 02, 01 at offsets 140..143.\<close>

theorem calculate_hashes_nonce_injected_header_witness:
  "calculate_work [0, 0, 0, 0, 0, 0, 0, 0, 0, 0, 0, 0, 0, 0, 0, 0, 0, 0, 0, 0, 0, 0, 0, 0, 0, 0, 0, 0, 0, 0, 0, 0, 0, 0, 0, 0, 0, 0, 0, 0, 0, 0, 0, 0, 0, 0, 0, 0, 0, 0, 0, 0, 0, 0, 0, 0, 0, 0, 0, 0, 0, 0, 0, 0, 0, 0, 0, 0, 0, 0, 0, 0, 0, 0, 0, 0, 0, 0, 0, 0, 0, 0, 0, 0, 0, 0, 0, 0, 0, 0, 0, 0, 0, 0, 0, 0, 0, 0, 0, 0, 0, 0, 0, 0, 0, 0, 0, 0, 0, 0, 0, 0, 0, 0, 0, 0, 0, 0, 0, 0, 0, 0, 0, 0, 0, 0, 0, 0, 0, 0, 0, 0, 0, 0, 0, 0, 0, 0, 0, 0, 0, 0, 0, 0, 0, 0, 0, 0, 0, 0, 0, 0, 0, 0, 0, 0, 0, 0, 0, 0, 0, 0, 0, 0, 0, 0, 0, 0, 0, 0, 0, 0, 0, 0, 0, 0, 0, 0, 0, 0] 0x01020304 = Some [0, 0, 0, 0, 0, 0, 0, 0, 0, 0, 0, 0, 0, 0, 0, 0, 0, 0, 0, 0, 0, 0, 0, 0, 0, 0, 0, 0, 0, 0, 0, 0, 0, 0, 0, 0, 0, 0, 0, 0, 0, 0, 0, 0, 0, 0, 0, 0, 0, 0, 0, 0, 0, 0, 0, 0, 0, 0, 0, 0, 0, 0, 0, 0, 0, 0, 0, 0, 0, 0, 0, 0, 0, 0, 0, 0, 0, 0, 0, 0, 0, 0, 0, 0, 0, 0, 0, 0, 0, 0, 0, 0, 0, 0, 0, 0, 0, 0, 0, 0, 0, 0, 0, 0, 0, 0, 0, 0, 0, 0, 0, 0, 0, 0, 0, 0, 0, 0, 0, 0, 0, 0, 0, 0, 0, 0, 0, 0, 0, 0, 0, 0, 0, 0, 0, 0, 0, 0, 0, 0, 4, 3, 2, 1, 0, 0, 0, 0, 0, 0, 0, 0, 0, 0, 0, 0, 0, 0, 0, 0, 0, 0, 0, 0, 0, 0, 0, 0, 0, 0, 0, 0, 0, 0, 0, 0, 0, 0, 0, 0]
   \<and> calculate [0, 0, 0, 0, 0, 0, 0, 0, 0, 0, 0, 0, 0, 0, 0, 0, 0, 0, 0, 0, 0, 0, 0, 0, 0, 0, 0, 0, 0, 0, 0, 0, 0, 0, 0, 0, 0, 0, 0, 0, 0, 0, 0, 0, 0, 0, 0, 0, 0, 0, 0, 0, 0, 0, 0, 0, 0, 0, 0, 0, 0, 0, 0, 0, 0, 0, 0, 0, 0, 0, 0, 0, 0, 0, 0, 0, 0, 0, 0, 0, 0, 0, 0, 0, 0, 0, 0, 0, 0, 0, 0, 0, 0, 0, 0, 0, 0, 0, 0, 0, 0, 0, 0, 0, 0, 0, 0, 0, 0, 0, 0, 0, 0, 0, 0, 0, 0, 0, 0, 0, 0, 0, 0, 0, 0, 0, 0, 0, 0, 0, 0, 0, 0, 0, 0, 0, 0, 0, 0, 0, 0, 0, 0, 0, 0, 0, 0, 0, 0, 0, 0, 0, 0, 0, 0, 0, 0, 0, 0, 0, 0, 0, 0, 0, 0, 0, 0, 0, 0, 0, 0, 0, 0, 0, 0, 0, 0, 0, 0, 0] 0x01020304 = blake3_hash [0, 0, 0, 0, 0, 0, 0, 0, 0, 0, 0, 0, 0, 0, 0, 0, 0, 0, 0, 0, 0, 0, 0, 0, 0, 0, 0, 0, 0, 0, 0, 0, 0, 0, 0, 0, 0, 0, 0, 0, 0, 0, 0, 0, 0, 0, 0, 0, 0, 0, 0, 0, 0, 0, 0, 0, 0, 0, 0, 0, 0, 0, 0, 0, 0, 0, 0, 0, 0, 0, 0, 0, 0, 0, 0, 0, 0, 0, 0, 0, 0, 0, 0, 0, 0, 0, 0, 0, 0, 0, 0, 0, 0, 0, 0, 0, 0, 0, 0, 0, 0, 0, 0, 0, 0, 0, 0, 0, 0, 0, 0, 0, 0, 0, 0, 0, 0, 0, 0, 0, 0, 0, 0, 0, 0, 0, 0, 0, 0, 0, 0, 0, 0, 0, 0, 0, 0, 0, 0, 0, 4, 3, 2, 1, 0, 0, 0, 0, 0, 0, 0, 0, 0, 0, 0, 0, 0, 0, 0, 0, 0, 0, 0, 0, 0, 0, 0, 0, 0, 0, 0, 0, 0, 0, 0, 0, 0, 0, 0, 0]"
proof -
  have len: "length ([0, 0, 0, 0, 0, 0, 0, 0, 0, 0, 0, 0, 0, 0, 0, 0, 0, 0, 0, 0, 0, 0, 0, 0, 0, 0, 0, 0, 0, 0, 0, 0, 0, 0, 0, 0, 0, 0, 0, 0, 0, 0, 0, 0, 0, 0, 0, 0, 0, 0, 0, 0, 0, 0, 0, 0, 0, 0, 0, 0, 0, 0, 0, 0, 0, 0, 0, 0, 0, 0, 0, 0, 0, 0, 0, 0, 0, 0, 0, 0, 0, 0, 0, 0, 0, 0, 0, 0, 0, 0, 0, 0, 0, 0, 0, 0, 0, 0, 0, 0, 0, 0, 0, 0, 0, 0, 0, 0, 0, 0, 0, 0, 0, 0, 0, 0, 0, 0, 0, 0, 0, 0, 0, 0, 0, 0, 0, 0, 0, 0, 0, 0, 0, 0, 0, 0, 0, 0, 0, 0, 0, 0, 0, 0, 0, 0, 0, 0, 0, 0, 0, 0, 0, 0, 0, 0, 0, 0, 0, 0, 0, 0, 0, 0, 0, 0, 0, 0, 0, 0, 0, 0, 0, 0, 0, 0, 0, 0, 0, 0] :: u8 list) = 180" by simp
  have le: "store32_le 0x01020304 = [4, 3, 2, 1]" by (simp add: store32_le_def)
  have tk: "take 140 ([0, 0, 0, 0, 0, 0, 0, 0, 0, 0, 0, 0, 0, 0, 0, 0, 0, 0, 0, 0, 0, 0, 0, 0, 0, 0, 0, 0, 0, 0, 0, 0, 0, 0, 0, 0, 0, 0, 0, 0, 0, 0, 0, 0, 0, 0, 0, 0, 0, 0, 0, 0, 0, 0, 0, 0, 0, 0, 0, 0, 0, 0, 0, 0, 0, 0, 0, 0, 0, 0, 0, 0, 0, 0, 0, 0, 0, 0, 0, 0, 0, 0, 0, 0, 0, 0, 0, 0, 0, 0, 0, 0, 0, 0, 0, 0, 0, 0, 0, 0, 0, 0, 0, 0, 0, 0, 0, 0, 0, 0, 0, 0, 0, 0, 0, 0, 0, 0, 0, 0, 0, 0, 0, 0, 0, 0, 0, 0, 0, 0, 0, 0, 0, 0, 0, 0, 0, 0, 0, 0, 0, 0, 0, 0, 0, 0, 0, 0, 0, 0, 0, 0, 0, 0, 0, 0, 0, 0, 0, 0, 0, 0, 0, 0, 0, 0, 0, 0, 0, 0, 0, 0, 0, 0, 0, 0, 0, 0, 0, 0] :: u8 list) @ [4, 3, 2, 1] @ drop 144 [0, 0, 0, 0, 0, 0, 0, 0, 0, 0, 0, 0, 0, 0, 0, 0, 0, 0, 0, 0, 0, 0, 0, 0, 0, 0, 0, 0, 0, 0, 0, 0, 0, 0, 0, 0, 0, 0, 0, 0, 0, 0, 0, 0, 0, 0, 0, 0, 0, 0, 0, 0, 0, 0, 0, 0, 0, 0, 0, 0, 0, 0, 0, 0, 0, 0, 0, 0, 0, 0, 0, 0, 0, 0, 0, 0, 0, 0, 0, 0, 0, 0, 0, 0, 0, 0, 0, 0, 0, 0, 0, 0, 0, 0, 0, 0, 0, 0, 0, 0, 0, 0, 0, 0, 0, 0, 0, 0, 0, 0, 0, 0, 0, 0, 0, 0, 0, 0, 0, 0, 0, 0, 0, 0, 0, 0, 0, 0, 0, 0, 0, 0, 0, 0, 0, 0, 0, 0, 0, 0, 0, 0, 0, 0, 0, 0, 0, 0, 0, 0, 0, 0, 0, 0, 0, 0, 0, 0, 0, 0, 0, 0, 0, 0, 0, 0, 0, 0, 0, 0, 0, 0, 0, 0, 0, 0, 0, 0, 0, 0] = [0, 0, 0, 0, 0, 0, 0, 0, 0, 0, 0, 0, 0, 0, 0, 0, 0, 0, 0, 0, 0, 0, 0, 0, 0, 0, 0, 0, 0, 0, 0, 0, 0, 0, 0, 0, 0, 0, 0, 0, 0, 0, 0, 0, 0, 0, 0, 0, 0, 0, 0, 0, 0, 0, 0, 0, 0, 0, 0, 0, 0, 0, 0, 0, 0, 0, 0, 0, 0, 0, 0, 0, 0, 0, 0, 0, 0, 0, 0, 0, 0, 0, 0, 0, 0, 0, 0, 0, 0, 0, 0, 0, 0, 0, 0, 0, 0, 0, 0, 0, 0, 0, 0, 0, 0, 0, 0, 0, 0, 0, 0, 0, 0, 0, 0, 0, 0, 0, 0, 0, 0, 0, 0, 0, 0, 0, 0, 0, 0, 0, 0, 0, 0, 0, 0, 0, 0, 0, 0, 0, 4, 3, 2, 1, 0, 0, 0, 0, 0, 0, 0, 0, 0, 0, 0, 0, 0, 0, 0, 0, 0, 0, 0, 0, 0, 0, 0, 0, 0, 0, 0, 0, 0, 0, 0, 0, 0, 0, 0, 0]" by simp
  show ?thesis
    using calculate_hashes_nonce_injected_header [OF len, of "0x01020304"]
    unfolding le tk by blast
qed

subsection \<open>Seekable output of a single chunk\<close>

lemma length_xof_words: "length (xof_words state cv0 i n) = 4 * n"
  by (induction n arbitrary: i) (simp_all add: store32_le_def)

lemma length_compress_xof: "length (compress_xof cv0 block block_len counter fl) = 64"
  by (simp add: compress_xof_def Let_def length_xof_words)

lemma length_root_block: "length (root_block c i) = 64"
  by (simp add: root_block_def length_compress_xof)

lemma length_root_stream: "length (root_stream c n) = 64 * n"
  by (induction n) (simp_all add: root_stream_def length_root_block)

lemma root_stream_Suc: "root_stream c (Suc n) = root_stream c n @ root_block c n"
  by (simp add: root_stream_def)

text \<open>Block \<open>j\<close> of the stream, cut out of a long enough prefix.\<close>

lemma drop_root_stream:
  "j < n \<Longrightarrow> take 64 (drop (64 * j) (root_stream c n)) = root_block c j"
proof (induction n)
  case 0
  then show ?case by simp
next
  case (Suc n)
  show ?case
  proof (cases "j < n")
    case True
    then have "64 * j + 64 \<le> length (root_stream c n)" by (simp add: length_root_stream)
    with Suc.IH [OF True] show ?thesis
      by (simp add: root_stream_Suc length_root_stream)
  next
    case False
    with Suc.prems have "j = n" by simp
    then show ?thesis by (simp add: root_stream_Suc length_root_stream length_root_block)
  qed
qed

lemma root_stream_prefix:
  "m \<le> n \<Longrightarrow> take (64 * m) (root_stream c n) = root_stream c m"
proof (induction n)
  case 0
  then show ?case by (simp add: root_stream_def)
next
  case (Suc n)
  show ?case
  proof (cases "m \<le> n")
    case True
    with Suc.IH show ?thesis by (simp add: root_stream_Suc length_root_stream)
  next
    case False
    with Suc.prems have "m = Suc n" by simp
    then show ?thesis using length_root_stream [of c "Suc n"] by simp
  qed
qed

lemma xof_loop_0: "xof_loop c fl ctr 0 = []"
  by (simp add: xof_loop.simps)

lemma split_at_64:
  fixes S :: "u8 list"
  assumes "64 \<le> length S"
  obtains A B where "S = A @ B" and "length A = 64"
proof
  show "S = take 64 S @ drop 64 S" by simp
  show "length (take 64 S) = 64" using assms by simp
qed

lemma xof_loop_root_stream:
  assumes "fl = flags c OR chunk_state_maybe_start_flag c OR CHUNK_END OR ROOT"
    and "64 * j + out_len \<le> 64 * n"
  shows "xof_loop c fl (of_nat j) out_len = take out_len (drop (64 * j) (root_stream c n))"
  using assms(2)
proof (induction out_len arbitrary: j rule: less_induct)
  case (less out_len)
  show ?case
  proof (cases "out_len = 0")
    case True
    then show ?thesis by (simp add: xof_loop.simps)
  next
    case False
    define S where "S = drop (64 * j) (root_stream c n)"
    have jn: "j < n" using less.prems False by simp
    then have "64 \<le> length S" by (simp add: S_def length_root_stream)
    then obtain A B where S: "S = A @ B" and A: "length A = 64" by (rule split_at_64)
    have "take 64 S = root_block c j" unfolding S_def by (rule drop_root_stream [OF jn])
    with S A have rb: "root_block c j = A" by simp
    have blk: "compress_xof (cv c) (buf c) (buf_len c) (of_nat j) fl = A"
      using rb by (simp add: root_block_def assms(1))
    have "drop (64 * Suc j) (root_stream c n) = drop 64 S"
      by (simp add: S_def add.commute)
    with S A have dB: "drop (64 * Suc j) (root_stream c n) = B" by simp
    have Sj: "(of_nat j :: u64) + 1 = of_nat (Suc j)" by simp
    show ?thesis
    proof (cases "out_len < 64")
      case True
      have "xof_loop c fl (of_nat j) out_len = take out_len A"
        using False True by (subst xof_loop.simps) (simp add: blk xof_loop_0)
      also have "\<dots> = take out_len (A @ B)" using True A by simp
      finally show ?thesis by (simp add: S [symmetric] S_def)
    next
      case big: False
      have "64 * Suc j + (out_len - 64) \<le> 64 * n" using less.prems big by simp
      moreover have "out_len - 64 < out_len" using big by simp
      ultimately have rec: "xof_loop c fl (of_nat (Suc j)) (out_len - 64) = take (out_len - 64) B"
        using less.IH [of "out_len - 64" "Suc j"] unfolding dB by blast
      have "xof_loop c fl (of_nat j) out_len
            = take 64 A @ xof_loop c fl (of_nat j + 1) (out_len - 64)"
        using False big by (subst xof_loop.simps) (simp add: blk)
      also have "\<dots> = A @ take (out_len - 64) B"
        unfolding Sj rec using A by simp
      also have "\<dots> = take out_len (A @ B)" using A big by simp
      finally show ?thesis by (simp add: S [symmetric] S_def)
    qed
  qed
qed

lemma finalize_seek_root_stream:
  assumes "cv_stack_len self = 0" and "unat seek + out_len \<le> 64 * n"
  shows "blake3_hasher_finalize_seek self seek out_len
         = Some (take out_len (drop (unat seek) (root_stream (chunk self) n)))"
proof (cases "out_len = 0")
  case True
  then show ?thesis by (simp add: blake3_hasher_finalize_seek_def)
next
  case False
  define c where "c = chunk self"
  define fl where "fl = flags c OR chunk_state_maybe_start_flag c OR CHUNK_END OR ROOT"
  define q where "q = unat seek div 64"
  define r where "r = unat seek mod 64"
  define S where "S = drop (64 * q) (root_stream c n)"
  have seek: "unat seek = 64 * q + r" by (simp add: q_def r_def)
  have r: "r < 64" by (simp add: r_def)
  have qn: "q < n" using assms(2) False seek by simp
  have uq: "seek div 64 = of_nat q"
    unfolding q_def by (subst word_arith_nat_div) simp
  have ur: "unat (seek mod 64) = r"
    by (simp add: r_def unat_mod)
  have "64 \<le> length S" using qn by (simp add: S_def length_root_stream)
  then obtain A B where S: "S = A @ B" and A: "length A = 64" by (rule split_at_64)
  have "take 64 S = root_block c q" unfolding S_def by (rule drop_root_stream [OF qn])
  with S A have rb: "root_block c q = A" by simp
  have blk: "compress_xof (cv c) (buf c) (buf_len c) (of_nat q) fl = A"
    using rb by (simp add: root_block_def fl_def)
  have "drop (64 * Suc q) (root_stream c n) = drop 64 S"
    by (simp add: S_def add.commute)
  with S A have dB: "drop (64 * Suc q) (root_stream c n) = B" by simp
  have Sq: "(of_nat q :: u64) + 1 = of_nat (Suc q)" by simp
  have tgt: "drop r (A @ B) = drop (unat seek) (root_stream c n)"
    by (simp add: S [symmetric] S_def seek add.commute)
  have "blake3_hasher_finalize_seek self seek out_len = Some (take out_len (drop r (A @ B)))"
  proof (cases "out_len < 64 - r")
    case True
    have "blake3_hasher_finalize_seek self seek out_len = Some (take out_len (drop r A))"
      using False assms(1) True
      by (simp add: blake3_hasher_finalize_seek_def Let_def uq ur c_def [symmetric]
            fl_def [symmetric] blk xof_loop_0)
    also have "take out_len (drop r A) = take out_len (drop r (A @ B))"
      using True A r by simp
    finally show ?thesis .
  next
    case big: False
    have "64 * Suc q + (out_len - (64 - r)) \<le> 64 * n"
      using assms(2) seek r big by simp
    from xof_loop_root_stream [OF fl_def this, unfolded dB]
    have rest: "xof_loop c fl (of_nat (Suc q)) (out_len - (64 - r)) = take (out_len - (64 - r)) B" .
    have "blake3_hasher_finalize_seek self seek out_len
          = Some (take (64 - r) (drop r A) @ take (out_len - (64 - r)) B)"
      using False assms(1) big
      by (simp add: blake3_hasher_finalize_seek_def Let_def uq ur c_def [symmetric]
            fl_def [symmetric] blk Sq rest del: of_nat_Suc)
    also have "take (64 - r) (drop r A) @ take (out_len - (64 - r)) B
               = take out_len (drop r (A @ B))"
      using A r big by simp
    finally show ?thesis .
  qed
  then show ?thesis unfolding tgt by (simp add: c_def)
qed

text \<open>
  C6: For every hasher state whose CV stack is empty, every seek offset \<open>k\<close> and every length
  \<open>len\<close>, \<^verbatim>\<open>finalize_seek(k, out, len)\<close> writes the bytes at positions \<open>[k, k + len)\<close> of the
  stream of wide compressions with \<open>ROOT\<close> set (block \<open>k div 64\<close> from offset \<open>k mod 64\<close> on, then
  the following blocks), and these are the bytes at positions \<open>[k, k + len)\<close> of what
  \<^verbatim>\<open>finalize_seek(0, out', k + len)\<close> writes.
\<close>

theorem finalize_seek_single_chunk_stream:
  assumes "cv_stack_len self = 0"
  shows "blake3_hasher_finalize_seek self k len
           = Some (take len (drop (unat k) (root_stream (chunk self) (unat k + len))))
         \<and> blake3_hasher_finalize_seek self k len
           = map_option (drop (unat k)) (blake3_hasher_finalize_seek self 0 (unat k + len))"
proof -
  let ?n = "unat k + len"
  have a: "blake3_hasher_finalize_seek self k len
           = Some (take len (drop (unat k) (root_stream (chunk self) ?n)))"
    by (rule finalize_seek_root_stream [OF assms]) simp
  have b: "blake3_hasher_finalize_seek self 0 ?n = Some (take ?n (root_stream (chunk self) ?n))"
    using finalize_seek_root_stream [OF assms, of 0 ?n ?n] by simp
  show ?thesis unfolding b a by (simp add: drop_take)
qed

theorem finalize_seek_single_chunk_stream_witness:
  "blake3_hasher_finalize_seek (blake3_hasher_init auto_hasher) 70 100
     = map_option (drop 70) (blake3_hasher_finalize_seek (blake3_hasher_init auto_hasher) 0 170)"
proof -
  have "cv_stack_len (blake3_hasher_init auto_hasher) = 0"
    by (simp add: blake3_hasher_init_def)
  from finalize_seek_single_chunk_stream [OF this, of 70 100, THEN conjunct2]
  show ?thesis by simp
qed

subsection \<open>Output of a hasher with a non-empty CV stack\<close>

lemma length_store_cv: "8 \<le> length ws \<Longrightarrow> length (store_cv ws) = 32"
proof -
  have "length (concat (map store32_le xs)) = 4 * length xs" for xs
    by (induction xs) (simp_all add: store32_le_def)
  then show "8 \<le> length ws \<Longrightarrow> length (store_cv ws) = 32"
    by (simp add: store_cv_def)
qed

lemma length_compress_in_place: "length (compress_in_place cv0 block bl ctr fl) = 8"
  by (simp add: compress_in_place_def Let_def)

lemma length_parent_cv_bytes: "length (parent_cv_bytes k fl l r) = 32"
  by (simp add: parent_cv_bytes_def length_store_cv length_compress_in_place)

lemma merge_right_snoc:
  "merge_right k fl (es @ [e]) r = merge_right k fl es (parent_cv_bytes k (fl OR PARENT) e r)"
  by (induction es) simp_all

lemma root_of_stack_snoc:
  "es \<noteq> [] \<Longrightarrow>
   root_of_stack k fl (es @ [e]) r = root_of_stack k fl es (parent_cv_bytes k (fl OR PARENT) e r)"
  by (cases es) (simp_all add: root_of_stack_def merge_right_snoc)

lemma read_stack_entry:
  "Suc i * 32 \<le> length (cv_stack self) \<Longrightarrow>
   read_bytes (cv_stack self) (i * 32) 32 = Some (stack_entry self i)"
  by (simp add: read_bytes_def stack_entry_def)

lemma length_stack_entry:
  "Suc i * 32 \<le> length (cv_stack self) \<Longrightarrow> length (stack_entry self i) = 32"
  by (simp add: stack_entry_def)

lemma finalize_fold_root:
  assumes "0 < n" and "n * 32 \<le> length (cv_stack self)"
  shows "finalize_fold self pb n
         = Some (stack_entry self 0
                 @ root_of_stack (key self) (flags (chunk self)) (stack_entries self n) (drop 32 pb))"
  using assms
proof (induction n arbitrary: pb)
  case 0
  then show ?case by simp
next
  case (Suc m)
  have rd: "read_bytes (cv_stack self) (m * 32) 32 = Some (stack_entry self m)"
    using Suc.prems by (intro read_stack_entry) simp
  have le: "length (stack_entry self m) = 32"
    using Suc.prems by (intro length_stack_entry) simp
  show ?case
  proof (cases "m = 0")
    case True
    have "finalize_fold self pb (Suc m)
          = finalize_fold self
              (stack_entry self 0 @ parent_cv_bytes (key self) (flags (chunk self) OR PARENT OR ROOT)
                 (stack_entry self 0) (drop 32 pb)) 0"
      using True rd by (subst finalize_fold.simps) (simp add: parent_cv_bytes_def)
    also have "\<dots> = Some (stack_entry self 0 @ parent_cv_bytes (key self)
                 (flags (chunk self) OR PARENT OR ROOT) (stack_entry self 0) (drop 32 pb))"
      by (subst finalize_fold.simps) simp
    finally show ?thesis
      using True by (simp add: stack_entries_def root_of_stack_def)
  next
    case False
    define pb' where "pb' = stack_entry self m @ parent_cv_bytes (key self)
                 (flags (chunk self) OR PARENT) (stack_entry self m) (drop 32 pb)"
    have "finalize_fold self pb (Suc m) = finalize_fold self pb' m"
      using False rd by (subst finalize_fold.simps) (simp add: parent_cv_bytes_def pb'_def)
    also have "\<dots> = Some (stack_entry self 0
                 @ root_of_stack (key self) (flags (chunk self)) (stack_entries self m) (drop 32 pb'))"
      using Suc.IH [of pb'] False Suc.prems by simp
    also have "drop 32 pb' = parent_cv_bytes (key self) (flags (chunk self) OR PARENT)
                 (stack_entry self m) (drop 32 pb)"
      by (simp add: pb'_def le)
    also have "root_of_stack (key self) (flags (chunk self)) (stack_entries self m)
                 (parent_cv_bytes (key self) (flags (chunk self) OR PARENT) (stack_entry self m) (drop 32 pb))
               = root_of_stack (key self) (flags (chunk self)) (stack_entries self (Suc m)) (drop 32 pb)"
      using False by (simp add: stack_entries_def root_of_stack_snoc)
    finally show ?thesis .
  qed
qed

lemma length_root_of_stack:
  "es \<noteq> [] \<Longrightarrow> length (root_of_stack k fl es r) = 32"
  by (cases es) (simp_all add: root_of_stack_def length_parent_cv_bytes)

lemma length_chunk_state_output: "length (chunk_state_output c) = 32"
  by (simp add: chunk_state_output_def Let_def length_compress_xof)

lemma finalize_seek_multi_chunk:
  assumes "cv_stack_len self \<noteq> 0" and "0 < out_len"
    and "unat (cv_stack_len self) * 32 \<le> length (cv_stack self)"
  shows "blake3_hasher_finalize_seek self seek out_len
         = Some (take (min out_len 32)
                   (root_of_stack (key self) (flags (chunk self))
                      (stack_entries self (unat (cv_stack_len self)))
                      (chunk_state_output (chunk self))))"
proof -
  have n: "0 < unat (cv_stack_len self)" using assms(1) by (simp add: unat_gt_0)
  have "length (stack_entry self 0) = 32"
    using n assms(3) by (intro length_stack_entry) simp
  with finalize_fold_root [OF n assms(3), of "replicate 32 0 @ chunk_state_output (chunk self)"]
  show ?thesis
    using assms(1,2) by (simp add: blake3_hasher_finalize_seek_def Let_def min_def)
qed

subsection \<open>The chunk state absorbs its input block by block\<close>

lemma size_t_sub_le: "b \<le> a \<Longrightarrow> a < 2 ^ 64 \<Longrightarrow> size_t_sub a b = a - b"
proof -
  assume a: "b \<le> a" "a < 2 ^ 64"
  then have "2 ^ 64 + a - b = 2 ^ 64 + (a - b)" by simp
  then have "size_t_sub a b = (a - b) mod 2 ^ 64"
    unfolding size_t_sub_def by (metis mod_add_self1)
  with a show ?thesis by simp
qed

lemma loop_step:
  "64 < length input \<Longrightarrow>
   chunk_state_update_loop self input
   = chunk_state_update_loop
       (self\<lparr>cv := compress_in_place (cv self) (take 64 input) 64
                     (chunk_counter self) (flags self OR chunk_state_maybe_start_flag self),
             blocks_compressed := blocks_compressed self + 1\<rparr>)
       (drop 64 input)"
  by (subst chunk_state_update_loop.simps) simp

lemma loop_fields:
  "chunk_state_update_loop c X = (c', r) \<Longrightarrow>
   buf c' = buf c \<and> buf_len c' = buf_len c \<and> chunk_counter c' = chunk_counter c
   \<and> flags c' = flags c \<and> length r \<le> 64 \<and> length r \<le> length X"
proof (induction c X arbitrary: c' r rule: chunk_state_update_loop.induct)
  case (1 self input)
  show ?case
  proof (cases "length input > 64")
    case True
    from "1.prems" have st: "chunk_state_update_loop
       (self\<lparr>cv := compress_in_place (cv self) (take 64 input) 64
                     (chunk_counter self) (flags self OR chunk_state_maybe_start_flag self),
             blocks_compressed := blocks_compressed self + 1\<rparr>)
       (drop 64 input) = (c', r)"
      by (simp only: loop_step [OF True])
    from "1.IH" [OF True st] show ?thesis by auto
  next
    case False
    then have "chunk_state_update_loop self input = (self, input)"
      by (subst chunk_state_update_loop.simps) simp
    with "1.prems" False show ?thesis by simp
  qed
qed

lemma loop_nonempty:
  "chunk_state_update_loop c X = (c', r) \<Longrightarrow> X \<noteq> [] \<Longrightarrow> r \<noteq> []"
proof (induction c X arbitrary: c' r rule: chunk_state_update_loop.induct)
  case (1 self input)
  show ?case
  proof (cases "length input > 64")
    case True
    from "1.prems"(1) have st: "chunk_state_update_loop
       (self\<lparr>cv := compress_in_place (cv self) (take 64 input) 64
                     (chunk_counter self) (flags self OR chunk_state_maybe_start_flag self),
             blocks_compressed := blocks_compressed self + 1\<rparr>)
       (drop 64 input) = (c', r)"
      by (simp only: loop_step [OF True])
    from True have "drop 64 input \<noteq> []" by simp
    from "1.IH" [OF True st this] show ?thesis .
  next
    case False
    then have "chunk_state_update_loop self input = (self, input)"
      by (subst chunk_state_update_loop.simps) simp
    with "1.prems" show ?thesis by simp
  qed
qed

lemma loop_short: "length X \<le> 64 \<Longrightarrow> chunk_state_update_loop c X = (c, X)"
  by (subst chunk_state_update_loop.simps) simp

lemma loop_len:
  "chunk_state_update_loop c X = (c', r) \<Longrightarrow>
   64 * unat (blocks_compressed c) + length X \<le> 16320 \<Longrightarrow>
   64 * unat (blocks_compressed c') + length r = 64 * unat (blocks_compressed c) + length X"
proof (induction c X arbitrary: c' r rule: chunk_state_update_loop.induct)
  case (1 self input)
  show ?case
  proof (cases "length input > 64")
    case True
    from "1.prems"(1) have st: "chunk_state_update_loop
       (self\<lparr>cv := compress_in_place (cv self) (take 64 input) 64
                     (chunk_counter self) (flags self OR chunk_state_maybe_start_flag self),
             blocks_compressed := blocks_compressed self + 1\<rparr>)
       (drop 64 input) = (c', r)"
      by (simp only: loop_step [OF True])
    have "unat (blocks_compressed self) < 255" using "1.prems"(2) True by simp
    then have u: "unat (blocks_compressed self + 1) = unat (blocks_compressed self) + 1"
      by (simp add: unat_word_ariths)
    have "64 * unat (blocks_compressed self + 1) + length (drop 64 input) \<le> 16320"
      using "1.prems"(2) True by (simp add: u)
    with "1.IH" [OF True st] True show ?thesis by (simp add: u)
  next
    case False
    then have "chunk_state_update_loop self input = (self, input)"
      by (subst chunk_state_update_loop.simps) simp
    with "1.prems" show ?thesis by simp
  qed
qed

lemma loop_append:
  "chunk_state_update_loop c (D @ B)
   = (case chunk_state_update_loop c D of (c', r) \<Rightarrow> chunk_state_update_loop c' (r @ B))"
proof (induction c D rule: chunk_state_update_loop.induct)
  case (1 self input)
  show ?case
  proof (cases "length input > 64")
    case True
    then have "64 < length (input @ B)" by simp
    from loop_step [OF this] True
    have "chunk_state_update_loop self (input @ B)
          = chunk_state_update_loop
             (self\<lparr>cv := compress_in_place (cv self) (take 64 input) 64
                           (chunk_counter self) (flags self OR chunk_state_maybe_start_flag self),
                   blocks_compressed := blocks_compressed self + 1\<rparr>)
             (drop 64 input @ B)"
      by simp
    also have "\<dots> = (case chunk_state_update_loop
             (self\<lparr>cv := compress_in_place (cv self) (take 64 input) 64
                           (chunk_counter self) (flags self OR chunk_state_maybe_start_flag self),
                   blocks_compressed := blocks_compressed self + 1\<rparr>)
             (drop 64 input) of
                       (c', r) \<Rightarrow> chunk_state_update_loop c' (r @ B))"
      by (rule "1.IH" [OF True])
    also have "\<dots> = (case chunk_state_update_loop self input of
                       (c', r) \<Rightarrow> chunk_state_update_loop c' (r @ B))"
      by (simp only: loop_step [OF True])
    finally show ?thesis .
  next
    case False
    then show ?thesis by (simp add: loop_short)
  qed
qed


lemma fill_buf_flushed:
  assumes "buf s = replicate 64 0" and "buf_len s = 0" and "length r \<le> 64"
  shows "chunk_state_fill_buf s r
         = Some (s\<lparr>buf := r @ replicate (64 - length r) 0, buf_len := of_nat (length r)\<rparr>, length r)"
proof -
  have t0: "size_t_sub 64 (unat (buf_len s)) = 64"
    using assms(2) by (simp add: size_t_sub_le)
  have tk: "(if 64 > length r then length r else 64) = length r"
    using assms(3) by simp
  have wr: "write_bytes (buf s) 0 r = Some (r @ replicate (64 - length r) 0)"
    using assms(1,3) by (simp add: write_bytes_def)
  show ?thesis
    unfolding chunk_state_fill_buf_def Let_def t0 tk
    using assms(2) wr by simp
qed

lemma update_flushed:
  assumes "buf s = replicate 64 0" and "buf_len s = 0"
  shows "chunk_state_update s X = Some (absorb s X)"
proof -
  obtain c' r where lp: "chunk_state_update_loop s X = (c', r)" by (cases "chunk_state_update_loop s X")
  from loop_fields [OF lp] assms have c': "buf c' = replicate 64 0" "buf_len c' = 0" "length r \<le> 64"
    by simp_all
  show ?thesis
    using assms(2) by (simp add: chunk_state_update_def lp fill_buf_flushed [OF c'] absorb_def)
qed

lemma chunk_ok_buf:
  assumes "chunk_ok c"
  shows "buf c = chunk_pending c @ replicate (64 - unat (buf_len c)) 0"
    and "length (chunk_pending c) = unat (buf_len c)"
    and "unat (buf_len c) \<le> 64" and "length (buf c) = 64"
proof -
  from assms have l: "length (buf c) = 64" and b: "unat (buf_len c) \<le> 64"
    and z: "drop (unat (buf_len c)) (buf c) = replicate (64 - unat (buf_len c)) 0"
    by (simp_all add: chunk_ok_def)
  have "buf c = take (unat (buf_len c)) (buf c) @ drop (unat (buf_len c)) (buf c)" by simp
  then show "buf c = chunk_pending c @ replicate (64 - unat (buf_len c)) 0"
    unfolding z chunk_pending_def .
  show "length (chunk_pending c) = unat (buf_len c)" using l b by (simp add: chunk_pending_def)
  show "unat (buf_len c) \<le> 64" by (rule b)
  show "length (buf c) = 64" by (rule l)
qed

lemma update_is_absorb:
  assumes "chunk_ok c"
  shows "chunk_state_update c X = Some (absorb (chunk_flush c) (chunk_pending c @ X))"
proof (cases "buf_len c = 0")
  case True
  from chunk_ok_buf [OF assms] True have b: "buf c = replicate 64 0" and p: "chunk_pending c = []"
    by simp_all
  have "chunk_flush c = c" using True b by (simp add: chunk_flush_def)
  with update_flushed [OF b True, of X] p show ?thesis by simp
next
  case False
  define bl where "bl = unat (buf_len c)"
  define P where "P = chunk_pending c"
  from chunk_ok_buf [OF assms] have bufc: "buf c = P @ replicate (64 - bl) 0"
    and lP: "length P = bl" and bl64: "bl \<le> 64" and lbuf: "length (buf c) = 64"
    by (simp_all add: bl_def P_def)
  have blpos: "0 < bl" using False by (simp add: bl_def unat_gt_0)
  have gt: "buf_len c > 0" using False by (simp add: word_greater_zero_iff)
  have t0: "size_t_sub 64 (unat (buf_len c)) = 64 - bl"
    using bl64 by (simp add: size_t_sub_le bl_def)
  show ?thesis
  proof (cases "64 - bl < length X")
    case True
    define s1' where "s1' = (chunk_flush c)\<lparr>cv := compress_in_place (cv c) (P @ take (64 - bl) X) 64
                     (chunk_counter c) (flags c OR chunk_state_maybe_start_flag c),
                   blocks_compressed := blocks_compressed c + 1\<rparr>"
    have wr: "write_bytes (buf c) bl (take (64 - bl) X) = Some (P @ take (64 - bl) X)"
      using True bl64 lP by (simp add: write_bytes_def bufc)
    have fb: "chunk_state_fill_buf c X
              = Some (c\<lparr>buf := P @ take (64 - bl) X, buf_len := buf_len c + of_nat (64 - bl)\<rparr>, 64 - bl)"
      unfolding chunk_state_fill_buf_def Let_def t0 using True wr
      by (simp add: bl_def [symmetric])
    have fl: "buf s1' = replicate 64 0" "buf_len s1' = 0"
      by (simp_all add: s1'_def chunk_flush_def)
    have req: "c\<lparr>cv := compress_in_place (cv c) (P @ take (64 - bl) X) 64
                     (chunk_counter c) (flags c OR chunk_state_maybe_start_flag c),
                   blocks_compressed := blocks_compressed c + 1,
                   buf_len := 0, buf := replicate 64 0\<rparr> = s1'"
      by (cases c) (simp add: s1'_def chunk_flush_def)
    have msf: "chunk_state_maybe_start_flag
                 (c\<lparr>buf := P @ take (64 - bl) X, buf_len := buf_len c + of_nat (64 - bl)\<rparr>)
               = chunk_state_maybe_start_flag c"
      by (simp add: chunk_state_maybe_start_flag_def)
    have "chunk_state_update c X
          = (case chunk_state_update_loop s1' (drop (64 - bl) X) of
               (s3, input3) \<Rightarrow> map_option fst (chunk_state_fill_buf s3 input3))"
      using gt True
      by (simp add: chunk_state_update_def fb msf req)
    also have "\<dots> = chunk_state_update s1' (drop (64 - bl) X)"
      using fl by (simp add: chunk_state_update_def)
    also have "\<dots> = Some (absorb s1' (drop (64 - bl) X))"
      by (rule update_flushed [OF fl])
    also have "absorb s1' (drop (64 - bl) X) = absorb (chunk_flush c) (P @ X)"
    proof -
      have "64 < length (P @ X)" using True lP bl64 by simp
      from loop_step [OF this, of "chunk_flush c"] lP bl64
      have "chunk_state_update_loop (chunk_flush c) (P @ X)
            = chunk_state_update_loop s1' (drop (64 - bl) X)"
        by (simp add: s1'_def chunk_flush_def chunk_state_maybe_start_flag_def)
      then show ?thesis by (simp add: absorb_def)
    qed
    finally show ?thesis by (simp add: P_def)
  next
    case False
    then have lx: "length X \<le> 64 - bl" by simp
    define s1 where "s1 = c\<lparr>buf := P @ X @ replicate (64 - bl - length X) 0,
                            buf_len := buf_len c + of_nat (length X)\<rparr>"
    have wr: "write_bytes (buf c) bl X = Some (P @ X @ replicate (64 - bl - length X) 0)"
      using lx bl64 lP by (simp add: write_bytes_def bufc)
    have fb: "chunk_state_fill_buf c X = Some (s1, length X)"
      unfolding chunk_state_fill_buf_def Let_def t0 using lx wr
      by (simp add: bl_def [symmetric] s1_def)
    have ubl: "unat (buf_len c + of_nat (length X)) = bl + length X"
      using lx bl64 by (simp add: unat_word_ariths unat_of_nat bl_def)
    have fb2: "chunk_state_fill_buf s1 [] = Some (s1, 0)"
    proof -
      have "write_bytes (buf s1) (unat (buf_len s1)) [] = Some (buf s1)"
        using lx bl64 lP by (simp add: write_bytes_def s1_def ubl)
      then show ?thesis
        by (simp add: chunk_state_fill_buf_def Let_def)
    qed
    have "chunk_state_update c X = Some s1"
      using gt by (simp add: chunk_state_update_def fb loop_short fb2)
    moreover have "absorb (chunk_flush c) (P @ X) = s1"
    proof -
      have "length (P @ X) \<le> 64" using lx lP bl64 by simp
      from loop_short [OF this, of "chunk_flush c"]
      have "absorb (chunk_flush c) (P @ X)
            = (chunk_flush c)\<lparr>buf := (P @ X) @ replicate (64 - length (P @ X)) 0,
                               buf_len := of_nat (length (P @ X))\<rparr>"
        by (simp add: absorb_def)
      also have "\<dots> = s1"
        using lP by (simp add: s1_def chunk_flush_def bl_def)
      finally show ?thesis .
    qed
    ultimately show ?thesis by (simp add: P_def)
  qed
qed


lemma absorb_fields:
  "chunk_counter (absorb s D) = chunk_counter s" "flags (absorb s D) = flags s"
proof -
  obtain c' r where lp: "chunk_state_update_loop s D = (c', r)" by (cases "chunk_state_update_loop s D")
  from loop_fields [OF lp]
  show "chunk_counter (absorb s D) = chunk_counter s" "flags (absorb s D) = flags s"
    by (simp_all add: absorb_def lp)
qed

lemma absorb_pending_flush:
  assumes "buf s = replicate 64 0" and "buf_len s = 0"
    and "chunk_state_update_loop s D = (c', r)"
  shows "chunk_pending (absorb s D) = r" and "chunk_flush (absorb s D) = c'"
proof -
  from loop_fields [OF assms(3)] assms(1,2)
  have f: "buf c' = replicate 64 0" "buf_len c' = 0" "length r \<le> 64" by simp_all
  then have u: "unat (of_nat (length r) :: u8) = length r"
    by (simp add: unat_of_nat)
  show "chunk_pending (absorb s D) = r"
    by (simp add: absorb_def assms(3) chunk_pending_def u)
  show "chunk_flush (absorb s D) = c'"
    using f by (cases c') (simp add: absorb_def assms(3) chunk_flush_def)
qed

lemma absorb_ok:
  assumes "64 * unat (blocks_compressed s) + length D \<le> 1024"
    and "D = [] \<Longrightarrow> blocks_compressed s = 0"
  shows "chunk_ok (absorb s D)"
    and "chunk_state_len (absorb s D) = 64 * unat (blocks_compressed s) + length D"
proof -
  obtain c' r where lp: "chunk_state_update_loop s D = (c', r)" by (cases "chunk_state_update_loop s D")
  from loop_fields [OF lp] have r64: "length r \<le> 64" by simp
  then have u: "unat (of_nat (length r) :: u8) = length r"
    by (simp add: unat_of_nat)
  from loop_len [OF lp] assms(1)
  have len: "64 * unat (blocks_compressed c') + length r = 64 * unat (blocks_compressed s) + length D"
    by simp
  have ab: "absorb s D = c'\<lparr>buf := r @ replicate (64 - length r) 0, buf_len := of_nat (length r)\<rparr>"
    by (simp add: absorb_def lp)
  show l: "chunk_state_len (absorb s D) = 64 * unat (blocks_compressed s) + length D"
    using len by (simp add: ab chunk_state_len_def u)
  have z: "blocks_compressed c' = 0" if "(of_nat (length r) :: u8) = 0"
  proof -
    from that u have "r = []" by simp
    with loop_nonempty [OF lp] have "D = []" by blast
    with assms(2) lp show ?thesis by (simp add: loop_short)
  qed
  show "chunk_ok (absorb s D)"
    unfolding chunk_ok_def using r64 l assms(1) z
    by (simp add: ab u)
qed

lemma chunk_update_ok:
  assumes "chunk_ok c" and "chunk_state_len c + length X \<le> 1024"
  shows "\<exists>c'. chunk_state_update c X = Some c' \<and> chunk_ok c'
           \<and> chunk_state_len c' = chunk_state_len c + length X
           \<and> chunk_counter c' = chunk_counter c \<and> flags c' = flags c"
proof -
  let ?s = "chunk_flush c" and ?D = "chunk_pending c @ X"
  have bc: "blocks_compressed ?s = blocks_compressed c" by (simp add: chunk_flush_def)
  have lD: "64 * unat (blocks_compressed ?s) + length ?D = chunk_state_len c + length X"
    using chunk_ok_buf(2) [OF assms(1)] by (simp add: bc chunk_state_len_def)
  have e: "blocks_compressed ?s = 0" if "?D = []"
  proof -
    from that chunk_ok_buf(2) [OF assms(1)] have "unat (buf_len c) = 0" by simp
    then have "buf_len c = 0" by (simp add: unat_eq_zero)
    with assms(1) show ?thesis by (simp add: chunk_ok_def bc)
  qed
  from absorb_ok [of ?s ?D, OF _ e] lD assms(2)
  have "chunk_ok (absorb ?s ?D)" "chunk_state_len (absorb ?s ?D) = chunk_state_len c + length X"
    by simp_all
  moreover have "chunk_counter (absorb ?s ?D) = chunk_counter c" "flags (absorb ?s ?D) = flags c"
    by (simp_all add: absorb_fields chunk_flush_def)
  ultimately show ?thesis using update_is_absorb [OF assms(1), of X] by simp
qed

lemma chunk_update_append:
  assumes "chunk_ok c" and "chunk_state_len c + length A \<le> 1024"
  shows "chunk_state_update c (A @ B)
         = (case chunk_state_update c A of None \<Rightarrow> None | Some c' \<Rightarrow> chunk_state_update c' B)"
proof -
  let ?s = "chunk_flush c" and ?D = "chunk_pending c @ A"
  obtain c' r where lp: "chunk_state_update_loop ?s ?D = (c', r)"
    by (cases "chunk_state_update_loop ?s ?D")
  have fl: "buf ?s = replicate 64 0" "buf_len ?s = 0" by (simp_all add: chunk_flush_def)
  from chunk_update_ok [OF assms] update_is_absorb [OF assms(1), of A]
  have okA: "chunk_ok (absorb ?s ?D)" by auto
  have "chunk_state_update (absorb ?s ?D) B = Some (absorb c' (r @ B))"
    using update_is_absorb [OF okA, of B] absorb_pending_flush [OF fl lp] by simp
  also have "absorb c' (r @ B) = absorb ?s (?D @ B)"
    using loop_append [of ?s ?D B] by (simp add: absorb_def lp)
  finally show ?thesis
    using update_is_absorb [OF assms(1), of A] update_is_absorb [OF assms(1), of "A @ B"]
    by simp
qed

lemma chunk_ok_init: "chunk_ok (chunk_state_init k fl)"
  by (simp add: chunk_ok_def chunk_state_init_def chunk_state_len_def)

lemma chunk_ok_bounds:
  assumes "chunk_ok c"
  shows "unat (buf_len c) \<le> 64" and "unat (blocks_compressed c) \<le> 15"
proof -
  from assms show b: "unat (buf_len c) \<le> 64" by (simp add: chunk_ok_def)
  show "unat (blocks_compressed c) \<le> 15"
  proof (cases "buf_len c = 0")
    case True
    with assms show ?thesis by (simp add: chunk_ok_def)
  next
    case False
    then have "0 < unat (buf_len c)" by (simp add: unat_gt_0)
    moreover from assms have "64 * unat (blocks_compressed c) + unat (buf_len c) \<le> 1024"
      by (simp add: chunk_ok_def chunk_state_len_def)
    ultimately show ?thesis by simp
  qed
qed

subsection \<open>Counting bits\<close>

lemma popcount_nat_0: "popcount_nat 0 = 0"
  by (simp add: popcount_nat.simps)

lemma popcount_nat_pos: "0 < n \<Longrightarrow> 0 < popcount_nat n"
proof (induction n rule: less_induct)
  case (less n)
  show ?case
  proof (cases "n mod 2 = 1")
    case True
    with less.prems show ?thesis by (subst popcount_nat.simps) simp
  next
    case False
    then have "n mod 2 = 0" by simp
    with less.prems have "0 < n div 2" "n div 2 < n" by auto
    from less.IH [OF this(2) this(1)] less.prems show ?thesis
      by (subst popcount_nat.simps) simp
  qed
qed

lemma popcount_nat_Suc: "popcount_nat (Suc n) \<le> popcount_nat n + 1"
proof (induction n rule: less_induct)
  case (less n)
  show ?case
  proof (cases "even n")
    case True
    then have "Suc n mod 2 = 1" "Suc n div 2 = n div 2" by presburger+
    then have "popcount_nat (Suc n) = 1 + popcount_nat (n div 2)"
      by (subst popcount_nat.simps) simp
    moreover have "popcount_nat n = popcount_nat (n div 2)"
      using True by (subst popcount_nat.simps) (auto simp: popcount_nat_0)
    ultimately show ?thesis by simp
  next
    case False
    then have n: "n mod 2 = 1" "0 < n" by presburger+
    from False have d: "Suc n mod 2 = 0" "Suc n div 2 = Suc (n div 2)" by presburger+
    have "popcount_nat (Suc n) = popcount_nat (Suc (n div 2))"
      using d by (subst popcount_nat.simps) simp
    also have "\<dots> \<le> popcount_nat (n div 2) + 1"
      using n by (intro less.IH) simp
    also have "\<dots> = popcount_nat n"
      using n by (subst (2) popcount_nat.simps) simp
    finally show ?thesis by simp
  qed
qed

lemma popcount_nat_bound: "n < 2 ^ k \<Longrightarrow> popcount_nat n \<le> k"
proof (induction k arbitrary: n)
  case 0
  then show ?case by (simp add: popcount_nat_0)
next
  case (Suc k)
  show ?case
  proof (cases "n = 0")
    case True
    then show ?thesis by (simp add: popcount_nat_0)
  next
    case False
    from Suc.prems have "n div 2 < 2 ^ k" by simp
    from Suc.IH [OF this] have "popcount_nat (n div 2) \<le> k" .
    moreover have "n mod 2 \<le> 1" by simp
    ultimately have "n mod 2 + popcount_nat (n div 2) \<le> Suc k" by simp
    with False show ?thesis by (subst popcount_nat.simps) simp
  qed
qed


subsection \<open>The hasher state under update\<close>

lemma merge_ok:
  assumes "unat (cv_stack_len h) \<le> 55" and "length (cv_stack h) = 1760" and "1 \<le> popcountll t"
  shows "\<exists>h'. hasher_merge_cv_stack h t = Some h'
           \<and> unat (cv_stack_len h') = min (unat (cv_stack_len h)) (popcountll t)
           \<and> length (cv_stack h') = 1760 \<and> key h' = key h \<and> chunk h' = chunk h"
  using assms
proof (induction h t rule: hasher_merge_cv_stack.induct)
  case (1 self total_len)
  let ?n = "unat (cv_stack_len self)"
  show ?case
  proof (cases "?n > popcountll total_len")
    case False
    then have "hasher_merge_cv_stack self total_len = Some self"
      by (subst hasher_merge_cv_stack.simps) simp
    with False "1.prems" show ?thesis by (simp add: min_def)
  next
    case True
    with "1.prems" have n2: "\<not> ?n < 2" by simp
    define pb where "pb = take 64 (drop ((?n - 2) * 32) (cv_stack self))"
    define pcv where "pcv = store_cv (compress_in_place (key self) pb 64 0 (flags (chunk self) OR PARENT))"
    define st where "st = take ((?n - 2) * 32) (cv_stack self) @ pcv
                            @ drop ((?n - 2) * 32 + 32) (cv_stack self)"
    define s' where "s' = self\<lparr>cv_stack_len := cv_stack_len self - 1, cv_stack := st\<rparr>"
    have lp: "length pcv = 32"
      by (simp add: pcv_def length_store_cv length_compress_in_place)
    have u1: "unat (cv_stack_len self - 1) = ?n - 1"
      using n2 by (simp add: unat_minus_one unat_eq_zero [symmetric])
    have rd: "read_bytes (cv_stack self) ((?n - 2) * 32) 64 = Some pb"
      using "1.prems" n2 by (simp add: read_bytes_def pb_def)
    have off: "(unat (cv_stack_len self - 1) - 1) * 32 = (?n - 2) * 32"
      by (simp add: u1)
    have wr: "write_bytes (cv_stack self) ((unat (cv_stack_len self - 1) - 1) * 32)
                (store_cv (compress_in_place (key self) pb 64 0 (flags (chunk self) OR PARENT)))
              = Some st"
      unfolding off pcv_def [symmetric] using "1.prems" n2 lp
      by (simp add: write_bytes_def st_def)
    have step: "hasher_merge_cv_stack self total_len = hasher_merge_cv_stack s' total_len"
      by (subst hasher_merge_cv_stack.simps)
         (simp only: True n2 if_True if_False rd wr option.case s'_def)
    have ls: "length st = 1760" using "1.prems" n2 lp by (simp add: st_def)
    have "\<exists>h'. hasher_merge_cv_stack s' total_len = Some h'
           \<and> unat (cv_stack_len h') = min (unat (cv_stack_len s')) (popcountll total_len)
           \<and> length (cv_stack h') = 1760 \<and> key h' = key s' \<and> chunk h' = chunk s'"
      unfolding s'_def
      using "1.prems" u1 ls by (intro "1.IH" [OF True n2 rd wr]) simp_all
    then show ?thesis
      unfolding step using True by (auto simp: s'_def u1 min_def)
  qed
qed

lemma push_ok:
  assumes "unat (cv_stack_len h) \<le> 55" and "length (cv_stack h) = 1760"
    and "1 \<le> popcountll t" and "popcountll t \<le> 54" and "32 \<le> length new_cv"
  shows "\<exists>h'. hasher_push_cv h new_cv t = Some h'
           \<and> unat (cv_stack_len h') = min (unat (cv_stack_len h)) (popcountll t) + 1
           \<and> length (cv_stack h') = 1760 \<and> key h' = key h \<and> chunk h' = chunk h"
proof -
  from merge_ok [OF assms(1-3)] obtain s where s: "hasher_merge_cv_stack h t = Some s"
    and n: "unat (cv_stack_len s) = min (unat (cv_stack_len h)) (popcountll t)"
    and l: "length (cv_stack s) = 1760" and k: "key s = key h" and c: "chunk s = chunk h"
    by blast
  from n assms(4) have n54: "unat (cv_stack_len s) \<le> 54" by simp
  define st where "st = take (unat (cv_stack_len s) * 32) (cv_stack s) @ take 32 new_cv
                         @ drop (unat (cv_stack_len s) * 32 + 32) (cv_stack s)"
  have wr: "write_bytes (cv_stack s) (unat (cv_stack_len s) * 32) (take 32 new_cv) = Some st"
    using n54 l assms(5) by (simp add: write_bytes_def st_def)
  have ls: "length st = 1760" using n54 l assms(5) by (simp add: st_def)
  have u: "unat (cv_stack_len s + 1) = unat (cv_stack_len s) + 1"
    using n54 by (simp add: unat_word_ariths)
  have "hasher_push_cv h new_cv t = Some (s\<lparr>cv_stack := st, cv_stack_len := cv_stack_len s + 1\<rparr>)"
    by (simp add: hasher_push_cv_def s wr)
  then show ?thesis using ls u n k c by simp
qed


lemma merge_fields:
  "hasher_merge_cv_stack h t = Some h' \<Longrightarrow> key h' = key h \<and> chunk h' = chunk h"
proof (induction h t arbitrary: h' rule: hasher_merge_cv_stack.induct)
  case (1 self total_len)
  show ?case
  proof (cases "unat (cv_stack_len self) > popcountll total_len")
    case False
    then have "hasher_merge_cv_stack self total_len = Some self"
      by (subst hasher_merge_cv_stack.simps) simp
    with "1.prems" show ?thesis by simp
  next
    case True
    from "1.prems" True have n2: "\<not> unat (cv_stack_len self) < 2"
      by (subst (asm) hasher_merge_cv_stack.simps) (simp split: if_splits)
    from "1.prems" True n2 obtain pb where
      rd: "read_bytes (cv_stack self) ((unat (cv_stack_len self) - 2) * 32) 64 = Some pb"
      by (subst (asm) hasher_merge_cv_stack.simps) (simp split: option.splits)
    from "1.prems" True n2 rd obtain st where
      wr: "write_bytes (cv_stack self) ((unat (cv_stack_len self - 1) - 1) * 32)
             (store_cv (compress_in_place (key self) pb 64 0 (flags (chunk self) OR PARENT)))
           = Some st"
      by (subst (asm) hasher_merge_cv_stack.simps) (simp split: option.splits)
    have "hasher_merge_cv_stack self total_len
          = hasher_merge_cv_stack (self\<lparr>cv_stack_len := cv_stack_len self - 1, cv_stack := st\<rparr>) total_len"
      by (subst hasher_merge_cv_stack.simps)
         (simp only: True n2 if_True if_False rd wr option.case)
    with "1.prems" "1.IH" [OF True n2 rd wr, of h'] show ?thesis by simp
  qed
qed

lemma push_fields:
  "hasher_push_cv h new_cv t = Some h' \<Longrightarrow> key h' = key h \<and> chunk h' = chunk h"
  by (auto simp: hasher_push_cv_def split: option.splits dest: merge_fields)

lemma roll_not_full:
  "chunk_state_len (chunk h) \<noteq> 1024 \<Longrightarrow> hasher_roll_chunk h = Some h"
  by (simp add: hasher_roll_chunk_def)

lemma roll_chunk_ok:
  assumes "chunk_ok (chunk h)" and "hasher_roll_chunk h = Some s"
  shows "chunk_ok (chunk s)" and "chunk_state_len (chunk s) < 1024"
    and "key s = key h" and "flags (chunk s) = flags (chunk h)"
proof -
  have "chunk_ok (chunk s) \<and> chunk_state_len (chunk s) < 1024
        \<and> key s = key h \<and> flags (chunk s) = flags (chunk h)"
  proof (cases "chunk_state_len (chunk h) = 1024")
    case False
    from assms(2) roll_not_full [OF False] have "s = h" by simp
    moreover have "chunk_state_len (chunk h) \<le> 1024" using assms(1) by (simp add: chunk_ok_def)
    ultimately show ?thesis using assms(1) False by simp
  next
    case True
    with assms(2) obtain p where p: "hasher_push_cv h (chunk_state_output (chunk h))
                                      (chunk_counter (chunk h) + 1) = Some p"
      and s: "s = p\<lparr>chunk := (chunk_state_init (key p) (flags (chunk p)))
                                \<lparr>chunk_counter := chunk_counter (chunk h) + 1\<rparr>\<rparr>"
      by (auto simp: hasher_roll_chunk_def Let_def split: option.splits)
    from push_fields [OF p] show ?thesis
      by (simp add: s chunk_ok_def chunk_state_init_def chunk_state_len_def)
  qed
  then show "chunk_ok (chunk s)" and "chunk_state_len (chunk s) < 1024"
    and "key s = key h" and "flags (chunk s) = flags (chunk h)" by simp_all
qed

lemma pass_eq:
  assumes "chunk_ok (chunk h)"
  shows "hasher_update_pass h X
         = (case hasher_roll_chunk h of
              None \<Rightarrow> None
            | Some s1 \<Rightarrow>
                (case chunk_state_update (chunk s1)
                        (take (min (1024 - chunk_state_len (chunk s1)) (length X)) X) of
                   None \<Rightarrow> None
                 | Some c \<Rightarrow>
                     Some (s1\<lparr>chunk := c\<rparr>,
                           drop (min (1024 - chunk_state_len (chunk s1)) (length X)) X)))"
proof (cases "hasher_roll_chunk h")
  case None
  then show ?thesis by (simp add: hasher_update_pass_def)
next
  case (Some s1)
  from roll_chunk_ok [OF assms Some] have "chunk_state_len (chunk s1) < 1024" by simp
  then have w: "size_t_sub 1024 (chunk_state_len (chunk s1)) = 1024 - chunk_state_len (chunk s1)"
    by (simp add: size_t_sub_le)
  have m: "(if 1024 - chunk_state_len (chunk s1) < length X
            then 1024 - chunk_state_len (chunk s1) else length X)
           = min (1024 - chunk_state_len (chunk s1)) (length X)"
    by (simp add: min_def)
  show ?thesis
    by (simp only: hasher_update_pass_def Some option.case Let_def w m)
qed

lemma update_Nil: "blake3_hasher_update h [] = Some h"
  by (simp add: blake3_hasher_update.simps)

lemma update_nonempty:
  "X \<noteq> [] \<Longrightarrow>
   blake3_hasher_update h X
   = (case hasher_update_pass h X of None \<Rightarrow> None
      | Some (s, rest) \<Rightarrow> blake3_hasher_update s rest)"
  by (subst blake3_hasher_update.simps) simp

lemma update_chunk_ok:
  assumes "chunk_ok (chunk h)" and "blake3_hasher_update h X = Some h'"
  shows "chunk_ok (chunk h') \<and> key h' = key h \<and> flags (chunk h') = flags (chunk h)"
  using assms
proof (induction h X rule: blake3_hasher_update.induct)
  case (1 self input)
  show ?case
  proof (cases "input = []")
    case True
    with "1.prems" show ?thesis by (simp add: update_Nil)
  next
    case False
    with "1.prems"(2) obtain s rest where
      ps: "hasher_update_pass self input = Some (s, rest)"
      and up: "blake3_hasher_update s rest = Some h'"
      by (auto simp: update_nonempty split: option.splits)
    from ps obtain s1 c where rl: "hasher_roll_chunk self = Some s1"
      and cu: "chunk_state_update (chunk s1)
                 (take (min (1024 - chunk_state_len (chunk s1)) (length input)) input) = Some c"
      and s: "s = s1\<lparr>chunk := c\<rparr>"
      by (auto simp: pass_eq [OF "1.prems"(1)] split: option.splits)
    note r = roll_chunk_ok [OF "1.prems"(1) rl]
    have "chunk_state_len (chunk s1)
            + length (take (min (1024 - chunk_state_len (chunk s1)) (length input)) input) \<le> 1024"
      using r(2) by simp
    from chunk_update_ok [OF r(1) this] cu
    have c: "chunk_ok c" "flags c = flags (chunk s1)" by auto
    from False have "0 < length input" by simp
    from "1.IH" [OF this ps refl _ up] c r s show ?thesis by simp
  qed
qed


lemma derive_key_raw_chunk:
  "blake3_hasher_init_derive_key_raw self context = Some h \<Longrightarrow>
   \<exists>k. chunk h = chunk_state_init k DERIVE_KEY_MATERIAL"
  by (auto simp: blake3_hasher_init_derive_key_raw_def Let_def split: option.splits)

lemma reachable_chunk_ok: "reachable h \<Longrightarrow> chunk_ok (chunk h)"
proof (induction rule: reachable.induct)
  case (init self)
  show ?case by (simp add: blake3_hasher_init_def chunk_ok_init)
next
  case (init_keyed self k)
  show ?case by (simp add: blake3_hasher_init_keyed_def Let_def chunk_ok_init)
next
  case (init_derive_key_raw self ctx h)
  from derive_key_raw_chunk [OF this] show ?case by (auto simp: chunk_ok_init)
next
  case (init_derive_key self ctx h)
  then have "blake3_hasher_init_derive_key_raw self (takeWhile (\<lambda>b. b \<noteq> 0) ctx) = Some h"
    by (simp add: blake3_hasher_init_derive_key_def)
  from derive_key_raw_chunk [OF this] show ?case by (auto simp: chunk_ok_init)
next
  case (update h inp h')
  from update_chunk_ok [OF update.IH update.hyps(2)] show ?case by simp
next
  case (reset h)
  show ?case by (simp add: blake3_hasher_reset_def chunk_ok_init)
qed

lemma update_append:
  assumes "chunk_ok (chunk h)"
  shows "blake3_hasher_update h (A @ B)
         = (case blake3_hasher_update h A of None \<Rightarrow> None
            | Some h' \<Rightarrow> blake3_hasher_update h' B)"
  using assms
proof (induction h A rule: blake3_hasher_update.induct)
  case (1 self input)
  show ?case
  proof (cases "input = []")
    case True
    then show ?thesis by (simp add: update_Nil)
  next
    case False
    note ok = "1.prems"
    show ?thesis
    proof (cases "hasher_roll_chunk self")
      case None
      then show ?thesis using False by (simp add: update_nonempty pass_eq [OF ok])
    next
      case (Some s1)
      note r = roll_chunk_ok [OF ok Some]
      define L where "L = chunk_state_len (chunk s1)"
      have L: "L < 1024" using r(2) by (simp add: L_def)
      show ?thesis
      proof (cases "1024 - L \<le> length input")
        case True
        then have tkA: "min (1024 - L) (length input) = 1024 - L"
          and tkAB: "min (1024 - L) (length (input @ B)) = 1024 - L" by simp_all
        have tk: "take (1024 - L) (input @ B) = take (1024 - L) input"
          and dr: "drop (1024 - L) (input @ B) = drop (1024 - L) input @ B"
          using True by simp_all
        have "chunk_state_len (chunk s1) + length (take (1024 - L) input) \<le> 1024"
          using L by (simp add: L_def)
        from chunk_update_ok [OF r(1) this] obtain c
          where c: "chunk_state_update (chunk s1) (take (1024 - L) input) = Some c"
            and cok: "chunk_ok c" by auto
        show ?thesis
        proof -
          have pA: "hasher_update_pass self input = Some (s1\<lparr>chunk := c\<rparr>, drop (1024 - L) input)"
            by (simp only: pass_eq [OF ok] Some L_def [symmetric] tkA c option.case)
          have pAB: "hasher_update_pass self (input @ B)
                     = Some (s1\<lparr>chunk := c\<rparr>, drop (1024 - L) input @ B)"
            by (simp only: pass_eq [OF ok] Some L_def [symmetric] tkAB tk dr c option.case)
          from False have pos: "0 < length input" by simp
          have "blake3_hasher_update self (input @ B)
                = blake3_hasher_update (s1\<lparr>chunk := c\<rparr>) (drop (1024 - L) input @ B)"
            using False by (simp add: update_nonempty pAB)
          also have "\<dots> = (case blake3_hasher_update (s1\<lparr>chunk := c\<rparr>) (drop (1024 - L) input) of
                             None \<Rightarrow> None | Some h' \<Rightarrow> blake3_hasher_update h' B)"
            using cok by (intro "1.IH" [OF pos pA refl]) simp
          also have "blake3_hasher_update (s1\<lparr>chunk := c\<rparr>) (drop (1024 - L) input)
                     = blake3_hasher_update self input"
            using False by (simp add: update_nonempty pA)
          finally show ?thesis .
        qed
      next
        case short: False
        then have tkA: "min (1024 - L) (length input) = length input" by simp
        define t where "t = min (1024 - L - length input) (length B)"
        have tkAB: "min (1024 - L) (length (input @ B)) = length input + t"
          using short by (auto simp: t_def min_def)
        have tk: "take (length input + t) (input @ B) = input @ take t B"
          and dr: "drop (length input + t) (input @ B) = drop t B"
          by simp_all
        have "chunk_state_len (chunk s1) + length input \<le> 1024"
          using short by (simp add: L_def)
        note cA = chunk_update_ok [OF r(1) this] and ap = chunk_update_append [OF r(1) this]
        from cA obtain c where c: "chunk_state_update (chunk s1) input = Some c"
          and cok: "chunk_ok c" and clen: "chunk_state_len c = L + length input"
          by (auto simp: L_def)
        have dA: "drop (length input) input = []" "take (length input) input = input" by simp_all
        have pA: "hasher_update_pass self input = Some (s1\<lparr>chunk := c\<rparr>, [])"
          by (simp only: pass_eq [OF ok] Some L_def [symmetric] tkA dA c option.case)
        have uA: "blake3_hasher_update self input = Some (s1\<lparr>chunk := c\<rparr>)"
          using False by (simp add: update_nonempty pA update_Nil)
        have pAB: "hasher_update_pass self (input @ B)
                   = (case chunk_state_update c (take t B) of None \<Rightarrow> None
                      | Some c' \<Rightarrow> Some (s1\<lparr>chunk := c'\<rparr>, drop t B))"
          by (simp only: pass_eq [OF ok] Some L_def [symmetric] tkAB tk dr ap c option.case)
        show ?thesis
        proof (cases "B = []")
          case True
          then show ?thesis by (simp add: uA update_Nil)
        next
          case Bne: False
          have ok2: "chunk_ok (chunk (s1\<lparr>chunk := c\<rparr>))" using cok by simp
          have "chunk_state_len c \<noteq> 1024" using clen short by simp
          then have r2: "hasher_roll_chunk (s1\<lparr>chunk := c\<rparr>) = Some (s1\<lparr>chunk := c\<rparr>)"
            by (intro roll_not_full) simp
          have t': "min (1024 - chunk_state_len c) (length B) = t"
            by (simp add: t_def clen)
          have pB: "hasher_update_pass (s1\<lparr>chunk := c\<rparr>) B
                    = (case chunk_state_update c (take t B) of None \<Rightarrow> None
                       | Some c' \<Rightarrow> Some (s1\<lparr>chunk := c'\<rparr>, drop t B))"
            by (simp add: pass_eq [OF ok2] r2 t' cong: option.case_cong)
          have "blake3_hasher_update self (input @ B)
                = blake3_hasher_update (s1\<lparr>chunk := c\<rparr>) B"
            using False Bne by (simp add: update_nonempty pAB pB)
          then show ?thesis by (simp add: uA)
        qed
      qed
    qed
  qed
qed

subsection \<open>Update returns, and keeps the stack length\<close>

lemma popcount_nat_1: "popcount_nat (Suc 0) = 1"
  by (subst popcount_nat.simps) (simp add: popcount_nat_0)

lemma popcount_nat_2: "popcount_nat 2 = 1"
  by (subst popcount_nat.simps) (simp add: popcount_nat_1)

lemma stack_len_after_Suc:
  "min (stack_len_after n) (popcount_nat (Suc n)) + 1 = stack_len_after (Suc n)"
proof -
  consider "n = 0" | "n = 1" | "2 \<le> n" by linarith
  then show ?thesis
  proof cases
    case 1
    then show ?thesis by (simp add: stack_len_after_def)
  next
    case 2
    then show ?thesis by (simp add: stack_len_after_def popcount_nat_2 numeral_2_eq_2 [symmetric])
  next
    case 3
    with popcount_nat_Suc [of n] show ?thesis by (simp add: stack_len_after_def)
  qed
qed

lemma stack_len_after_bound: "n < 2 ^ 54 \<Longrightarrow> stack_len_after n \<le> 55"
  using popcount_nat_bound [of n 54] by (simp add: stack_len_after_def)

lemma roll_ok:
  assumes "stack_ok h" and "chunk_state_len (chunk h) = 1024"
    and "1024 * (unat (chunk_counter (chunk h)) + 1) < 2 ^ 64"
  shows "\<exists>s. hasher_roll_chunk h = Some s
           \<and> chunk s = (chunk_state_init (key h) (flags (chunk h)))
                          \<lparr>chunk_counter := chunk_counter (chunk h) + 1\<rparr>
           \<and> unat (chunk_counter (chunk h) + 1) = unat (chunk_counter (chunk h)) + 1
           \<and> stack_ok s \<and> key s = key h"
proof -
  define N where "N = unat (chunk_counter (chunk h))"
  have N: "N + 1 < 2 ^ 54" using assms(3) by (simp add: N_def)
  then have "N + 1 < 2 ^ 64" by simp
  then have u: "unat (chunk_counter (chunk h) + 1) = N + 1"
    by (simp add: unat_word_ariths N_def)
  have pc: "popcountll (chunk_counter (chunk h) + 1) = popcount_nat (Suc N)"
    by (simp add: popcountll_def u)
  have p1: "1 \<le> popcountll (chunk_counter (chunk h) + 1)"
    unfolding pc using popcount_nat_pos [of "Suc N"] by simp
  have p54: "popcountll (chunk_counter (chunk h) + 1) \<le> 54"
    unfolding pc using popcount_nat_bound [of "Suc N" 54] N by simp
  from assms(1) have l: "length (cv_stack h) = 1760"
    and sl: "unat (cv_stack_len h) = stack_len_after N"
    by (simp_all add: stack_ok_def N_def)
  have s55: "unat (cv_stack_len h) \<le> 55"
    unfolding sl using N by (intro stack_len_after_bound) simp
  have "32 \<le> length (chunk_state_output (chunk h))" by (simp add: length_chunk_state_output)
  from push_ok [OF s55 l p1 p54 this] obtain p where
    p: "hasher_push_cv h (chunk_state_output (chunk h)) (chunk_counter (chunk h) + 1) = Some p"
    and pl: "unat (cv_stack_len p) = min (unat (cv_stack_len h))
                                        (popcountll (chunk_counter (chunk h) + 1)) + 1"
    and ps: "length (cv_stack p) = 1760" and pk: "key p = key h" and pc': "chunk p = chunk h"
    by blast
  have pl': "unat (cv_stack_len p) = stack_len_after (Suc N)"
    unfolding pl sl pc by (rule stack_len_after_Suc)
  have "hasher_roll_chunk h
        = Some (p\<lparr>chunk := (chunk_state_init (key p) (flags (chunk p)))
                              \<lparr>chunk_counter := chunk_counter (chunk h) + 1\<rparr>\<rparr>)"
    by (simp add: hasher_roll_chunk_def assms(2) Let_def p)
  then show ?thesis
    using u pl' ps pk pc' by (simp add: stack_ok_def N_def)
qed

lemma update_ok:
  assumes "hasher_ok h" and "total_len h + length X \<le> 2 ^ 64"
  shows "\<exists>h'. blake3_hasher_update h X = Some h' \<and> hasher_ok h'
           \<and> total_len h' = total_len h + length X
           \<and> key h' = key h \<and> flags (chunk h') = flags (chunk h)"
  using assms
proof (induction h X rule: blake3_hasher_update.induct)
  case (1 self input)
  show ?case
  proof (cases "input = []")
    case True
    with "1.prems" show ?thesis by (simp add: update_Nil)
  next
    case False
    from "1.prems"(1) have cok: "chunk_ok (chunk self)" and sok: "stack_ok self"
      by (simp_all add: hasher_ok_def)
    have "\<exists>s1. hasher_roll_chunk self = Some s1 \<and> chunk_ok (chunk s1)
            \<and> chunk_state_len (chunk s1) < 1024 \<and> stack_ok s1
            \<and> total_len s1 = total_len self \<and> key s1 = key self
            \<and> flags (chunk s1) = flags (chunk self)"
    proof (cases "chunk_state_len (chunk self) = 1024")
      case full: True
      have "1024 * (unat (chunk_counter (chunk self)) + 1) < 2 ^ 64"
        using "1.prems"(2) False full by (cases input) (simp_all add: total_len_def)
      from roll_ok [OF sok full this] obtain s where rs: "hasher_roll_chunk self = Some s"
        and cs: "chunk s = (chunk_state_init (key self) (flags (chunk self)))
                             \<lparr>chunk_counter := chunk_counter (chunk self) + 1\<rparr>"
        and us: "unat (chunk_counter (chunk self) + 1) = unat (chunk_counter (chunk self)) + 1"
        and ss: "stack_ok s" and ks: "key s = key self"
        by blast
      have a: "chunk_ok (chunk s)"
        using chunk_ok_init [of "key self" "flags (chunk self)"]
        by (simp add: cs chunk_ok_def chunk_state_len_def)
      have b: "chunk_state_len (chunk s) = 0"
        by (simp add: cs chunk_state_len_def chunk_state_init_def)
      have d: "total_len s = total_len self"
        by (simp add: total_len_def b full) (simp add: cs us)
      have e: "flags (chunk s) = flags (chunk self)"
        by (simp add: cs chunk_state_init_def)
      from rs a b ss d ks e show ?thesis by simp
    next
      case nf: False
      moreover from cok have "chunk_state_len (chunk self) \<le> 1024" by (simp add: chunk_ok_def)
      ultimately show ?thesis using roll_not_full [OF nf] cok sok by simp
    qed
    then obtain s1 where rl: "hasher_roll_chunk self = Some s1"
      and c1: "chunk_ok (chunk s1)" and L: "chunk_state_len (chunk s1) < 1024"
      and s1: "stack_ok s1" and t1: "total_len s1 = total_len self"
      and k1: "key s1 = key self" and f1: "flags (chunk s1) = flags (chunk self)"
      by blast
    define tk where "tk = min (1024 - chunk_state_len (chunk s1)) (length input)"
    have tkpos: "0 < tk" using L False by (simp add: tk_def)
    have ltk: "length (take tk input) = tk" by (simp add: tk_def)
    have "chunk_state_len (chunk s1) + length (take tk input) \<le> 1024"
      using L by (simp add: tk_def)
    from chunk_update_ok [OF c1 this] obtain c where
      c: "chunk_state_update (chunk s1) (take tk input) = Some c" and cok': "chunk_ok c"
      and clen: "chunk_state_len c = chunk_state_len (chunk s1) + tk"
      and cctr: "chunk_counter c = chunk_counter (chunk s1)" and cfl: "flags c = flags (chunk s1)"
      unfolding ltk by blast
    have ps: "hasher_update_pass self input = Some (s1\<lparr>chunk := c\<rparr>, drop tk input)"
      by (simp only: pass_eq [OF cok] rl option.case tk_def [symmetric] c)
    have ok2: "hasher_ok (s1\<lparr>chunk := c\<rparr>)"
      using cok' s1 clen tkpos cctr by (simp add: hasher_ok_def stack_ok_def)
    have t2: "total_len (s1\<lparr>chunk := c\<rparr>) = total_len self + tk"
      using t1 clen cctr by (simp add: total_len_def)
    have "total_len (s1\<lparr>chunk := c\<rparr>) + length (drop tk input) \<le> 2 ^ 64"
      using "1.prems"(2) t2 by (simp add: tk_def)
    from False have pos: "0 < length input" by simp
    from "1.IH" [OF pos ps refl ok2 \<open>total_len (s1\<lparr>chunk := c\<rparr>) + length (drop tk input) \<le> 2 ^ 64\<close>]
    obtain h' where h': "blake3_hasher_update (s1\<lparr>chunk := c\<rparr>) (drop tk input) = Some h'"
      and ok': "hasher_ok h'"
      and t': "total_len h' = total_len (s1\<lparr>chunk := c\<rparr>) + length (drop tk input)"
      and k': "key h' = key (s1\<lparr>chunk := c\<rparr>)"
      and f': "flags (chunk h') = flags (chunk (s1\<lparr>chunk := c\<rparr>))"
      by blast
    have "blake3_hasher_update self input = Some h'"
      using False by (simp add: update_nonempty ps h')
    moreover have "total_len h' = total_len self + length input"
      using t' t2 by (simp add: tk_def)
    ultimately show ?thesis using ok' k' f' k1 f1 cfl by simp
  qed
qed

subsection \<open>Hashing from a fresh hasher\<close>

lemma hasher_ok_init:
  "length (cv_stack self) = 1760 \<Longrightarrow> hasher_ok (blake3_hasher_init self)"
  using chunk_ok_init [of IV 0]
  by (simp add: hasher_ok_def stack_ok_def blake3_hasher_init_def stack_len_after_def)
     (simp add: chunk_state_init_def)

lemma total_len_init: "total_len (blake3_hasher_init self) = 0"
  by (simp add: total_len_def blake3_hasher_init_def chunk_state_init_def chunk_state_len_def)

lemma update_from_init:
  assumes "length (cv_stack self) = 1760" and "length X \<le> 2 ^ 64"
  shows "\<exists>h. blake3_hasher_update (blake3_hasher_init self) X = Some h \<and> hasher_ok h
           \<and> total_len h = length X \<and> key h = IV \<and> flags (chunk h) = 0"
  using update_ok [OF hasher_ok_init [OF assms(1)], of X] assms(2)
  by (simp add: total_len_init) (simp add: blake3_hasher_init_def chunk_state_init_def)

lemma hasher_ok_counter:
  assumes "hasher_ok h" and "0 < total_len h"
  shows "unat (chunk_counter (chunk h)) = (total_len h - 1) div 1024"
proof -
  define N where "N = unat (chunk_counter (chunk h))"
  define l where "l = chunk_state_len (chunk h)"
  have t: "total_len h = 1024 * N + l" by (simp add: total_len_def N_def l_def)
  from assms(1) have l1024: "l \<le> 1024" by (simp add: hasher_ok_def chunk_ok_def l_def)
  have "0 < l"
  proof (cases "chunk_counter (chunk h) = 0")
    case True
    then have "N = 0" by (simp add: N_def)
    with assms(2) t show ?thesis by simp
  next
    case False
    with assms(1) show ?thesis by (simp add: hasher_ok_def l_def)
  qed
  with l1024 have "(1024 * N + l - 1) div 1024 = N" by simp
  then show ?thesis by (simp add: t N_def [symmetric])
qed

lemma stack_len_from_init:
  assumes "length (cv_stack self) = 1760" and "length X \<le> 2 ^ 64" and "0 < length X"
  shows "\<exists>h. blake3_hasher_update (blake3_hasher_init self) X = Some h \<and> hasher_ok h
           \<and> unat (chunk_counter (chunk h)) = (length X - 1) div 1024
           \<and> unat (cv_stack_len h) = stack_len_after ((length X - 1) div 1024)
           \<and> length (cv_stack h) = 1760"
proof -
  from update_from_init [OF assms(1,2)] obtain h where
    h: "blake3_hasher_update (blake3_hasher_init self) X = Some h" and ok: "hasher_ok h"
    and t: "total_len h = length X" by blast
  from hasher_ok_counter [OF ok] t assms(3)
  have c: "unat (chunk_counter (chunk h)) = (length X - 1) div 1024" by simp
  from ok have "stack_ok h" by (simp add: hasher_ok_def)
  then show ?thesis using h ok c by (auto simp: stack_ok_def)
qed

lemma update_calls_concat:
  "chunk_ok (chunk h) \<Longrightarrow> update_calls h Xs = blake3_hasher_update h (concat Xs)"
proof (induction Xs arbitrary: h)
  case Nil
  show ?case by (simp add: update_Nil)
next
  case (Cons X Xs)
  show ?case
  proof (cases "blake3_hasher_update h X")
    case None
    then show ?thesis by (simp add: update_append [OF Cons.prems])
  next
    case (Some h')
    from update_chunk_ok [OF Cons.prems Some] have "chunk_ok (chunk h')" by simp
    from Cons.IH [OF this] Some show ?thesis by (simp add: update_append [OF Cons.prems])
  qed
qed

lemma cv_stack_len_after_pushes:
  assumes "length (cv_stack self) = 1760"
    and "0 < length (concat Xs)" and "length (concat Xs) \<le> 2 ^ 64"
  shows "\<exists>h. update_calls (blake3_hasher_init self) Xs = Some h
           \<and> unat (chunk_counter (chunk h)) = (length (concat Xs) - 1) div 1024
           \<and> unat (cv_stack_len h) = stack_len_after ((length (concat Xs) - 1) div 1024)"
proof -
  have "chunk_ok (chunk (blake3_hasher_init self))"
    using hasher_ok_init [OF assms(1)] by (simp add: hasher_ok_def)
  from update_calls_concat [OF this] stack_len_from_init [OF assms(1,3,2)]
  show ?thesis by auto
qed

lemma finalize_ok:
  assumes "hasher_ok h" and "total_len h \<le> 2 ^ 64" and "0 < out_len"
  shows "\<exists>d. blake3_hasher_finalize_seek h seek out_len = Some d
           \<and> (out_len \<le> 32 \<longrightarrow> length d = out_len)"
proof (cases "cv_stack_len h = 0")
  case True
  have "unat seek + out_len \<le> 64 * (unat seek + out_len)" by simp
  from finalize_seek_root_stream [OF True this]
  show ?thesis by (simp add: length_root_stream)
next
  case False
  then have pos: "0 < total_len h"
    using assms(1)
    by (cases "chunk_counter (chunk h) = 0")
       (auto simp: hasher_ok_def stack_ok_def stack_len_after_def total_len_def unat_eq_zero)
  from hasher_ok_counter [OF assms(1) pos] assms(2)
  have "unat (chunk_counter (chunk h)) < 2 ^ 54" by simp
  from stack_len_after_bound [OF this] assms(1)
  have b: "unat (cv_stack_len h) * 32 \<le> length (cv_stack h)"
    by (simp add: hasher_ok_def stack_ok_def)
  have ne: "stack_entries h (unat (cv_stack_len h)) \<noteq> []"
    using False by (simp add: stack_entries_def unat_eq_zero)
  from finalize_seek_multi_chunk [OF False assms(3) b, of seek] length_root_of_stack [OF ne]
  show ?thesis by (simp add: min_def)
qed

subsection \<open>Stack length after the chunks were pushed\<close>

text \<open>
  C2 states that \<^verbatim>\<open>cv_stack_len\<close> is \<open>popcount(N)\<close> right after the chaining value of the \<open>N\<close>-th
  chunk was pushed. The code merges down to \<open>popcount(N)\<close> entries and then pushes, so it
  holds \<open>popcount(N) + 1\<close> entries for every \<open>N \<ge> 2\<close> (lemma \<open>cv_stack_len_after_pushes\<close>). At
  \<open>N = 2\<close>, reached by absorbing 2049 bytes into a fresh hasher: two entries, where
  \<open>popcount(2) = 1\<close>.
\<close>

theorem cv_stack_len_after_second_push:
  "\<exists>h. blake3_hasher_update (blake3_hasher_init auto_hasher) (replicate 2049 0) = Some h
       \<and> unat (chunk_counter (chunk h)) = 2
       \<and> unat (cv_stack_len h) = 2
       \<and> popcountll 2 = 1"
proof -
  have a: "length (cv_stack auto_hasher) = 1760" by (simp add: auto_hasher_def)
  have p: "popcountll 2 = 1" by (simp add: popcountll_def popcount_nat_2)
  from stack_len_from_init [OF a, of "replicate 2049 0"]
  obtain h where "blake3_hasher_update (blake3_hasher_init auto_hasher) (replicate 2049 0) = Some h"
    and "unat (chunk_counter (chunk h)) = 2" and "unat (cv_stack_len h) = 2"
    by (auto simp: stack_len_after_def popcount_nat_2)
  with p show ?thesis by blast
qed


subsection \<open>Incremental and one-shot hashing\<close>

text \<open>
  C3: For every byte string \<open>X\<close> (of at most \<open>2 ^ 64\<close> bytes) and every split point
  \<open>X = X1 @ X2\<close>, initialising a hasher, calling update with \<open>X1\<close>, then with \<open>X2\<close>, and then
  finalize for 32 bytes returns a 32-byte digest, the one that the one-shot \<^verbatim>\<open>blake3_hash\<close>
  returns for \<open>X1 @ X2\<close>.
\<close>

theorem incremental_equals_one_shot:
  assumes "length X1 + length X2 \<le> 2 ^ 64"
  shows "\<exists>digest. length digest = 32
           \<and> blake3_hash (X1 @ X2) = Some digest
           \<and> (case blake3_hasher_update (blake3_hasher_init auto_hasher) X1 of
                 None \<Rightarrow> None
               | Some h1 \<Rightarrow>
                   (case blake3_hasher_update h1 X2 of
                      None \<Rightarrow> None
                    | Some h2 \<Rightarrow> blake3_hasher_finalize h2 32)) = Some digest"
proof -
  have a: "length (cv_stack auto_hasher) = 1760" by (simp add: auto_hasher_def)
  from assms have "length (X1 @ X2) \<le> 2 ^ 64" by simp
  from update_from_init [OF a this] obtain h where
    h: "blake3_hasher_update (blake3_hasher_init auto_hasher) (X1 @ X2) = Some h"
    and ok: "hasher_ok h" and t: "total_len h = length (X1 @ X2)" by blast
  from finalize_ok [OF ok, of 32 0] t assms obtain d where
    d: "blake3_hasher_finalize h 32 = Some d" and ld: "length d = 32"
    by (auto simp: blake3_hasher_finalize_def)
  have one: "blake3_hash (X1 @ X2) = Some d" by (simp add: blake3_hash_def h d)
  have "chunk_ok (chunk (blake3_hasher_init auto_hasher))"
    using hasher_ok_init [OF a] by (simp add: hasher_ok_def)
  from update_append [OF this, of X1 X2] h
  obtain h1 where h1: "blake3_hasher_update (blake3_hasher_init auto_hasher) X1 = Some h1"
    and h2: "blake3_hasher_update h1 X2 = Some h"
    by (cases "blake3_hasher_update (blake3_hasher_init auto_hasher) X1") simp_all
  have "(case blake3_hasher_update (blake3_hasher_init auto_hasher) X1 of
           None \<Rightarrow> None
         | Some h1 \<Rightarrow>
             (case blake3_hasher_update h1 X2 of
                None \<Rightarrow> None
              | Some h2 \<Rightarrow> blake3_hasher_finalize h2 32)) = Some d"
    by (simp add: h1 h2 d)
  with one ld show ?thesis by blast
qed

theorem incremental_equals_one_shot_witness:
  "\<exists>digest. length digest = 32
     \<and> blake3_hash ([1, 2, 3] @ [4, 5]) = Some digest
     \<and> (case blake3_hasher_update (blake3_hasher_init auto_hasher) [1, 2, 3] of
           None \<Rightarrow> None
         | Some h1 \<Rightarrow>
             (case blake3_hasher_update h1 [4, 5] of
                None \<Rightarrow> None
              | Some h2 \<Rightarrow> blake3_hasher_finalize h2 32)) = Some digest"
  using incremental_equals_one_shot [of "[1, 2, 3]" "[4, 5]"] by simp

subsection \<open>Output of the multi-chunk branch\<close>

text \<open>
  C7, as amended: For every hasher state whose CV stack is non-empty (and lies inside the
  array) and every \<open>out_len \<ge> 1\<close>, \<^verbatim>\<open>finalize_seek\<close> folds the chunk's output into the stack
  from top to bottom with \<open>ROOT\<close> set only on the final combination and writes the first
  \<open>min(out_len, 32)\<close> bytes of this root chaining value; the bytes written do not depend on
  the seek argument.
\<close>

theorem finalize_seek_multi_chunk_root:
  assumes "cv_stack_len self \<noteq> 0" and "0 < out_len"
    and "unat (cv_stack_len self) * 32 \<le> length (cv_stack self)"
  shows "\<exists>out. blake3_hasher_finalize_seek self seek out_len = Some out
           \<and> blake3_hasher_finalize_seek self seek' out_len = Some out
           \<and> length out = min out_len 32
           \<and> out = take out_len
                     (root_of_stack (key self) (flags (chunk self))
                        (stack_entries self (unat (cv_stack_len self)))
                        (chunk_state_output (chunk self)))"
proof -
  have n: "0 < unat (cv_stack_len self)" using assms(1) by (simp add: unat_gt_0)
  then have ne: "stack_entries self (unat (cv_stack_len self)) \<noteq> []"
    by (simp add: stack_entries_def)
  show ?thesis
    using finalize_seek_multi_chunk [OF assms, of seek] finalize_seek_multi_chunk [OF assms, of seek']
      length_root_of_stack [OF ne, of "key self" "flags (chunk self)" "chunk_state_output (chunk self)"]
    by (simp add: min_def)
qed


theorem finalize_seek_multi_chunk_root_witness:
  "\<exists>h out. blake3_hasher_update (blake3_hasher_init auto_hasher) (replicate 1025 0) = Some h
     \<and> blake3_hasher_finalize_seek h 0 40 = Some out
     \<and> blake3_hasher_finalize_seek h 1000 40 = Some out
     \<and> length out = 32"
proof -
  have a: "length (cv_stack auto_hasher) = 1760" by (simp add: auto_hasher_def)
  from stack_len_from_init [OF a, of "replicate 1025 0"] obtain h where
    h: "blake3_hasher_update (blake3_hasher_init auto_hasher) (replicate 1025 0) = Some h"
    and n: "unat (cv_stack_len h) = 1" and l: "length (cv_stack h) = 1760"
    by (auto simp: stack_len_after_def)
  from n have nz: "cv_stack_len h \<noteq> 0" by auto
  have b: "unat (cv_stack_len h) * 32 \<le> length (cv_stack h)" by (simp add: n l)
  from finalize_seek_multi_chunk_root [OF nz _ b, of 40 0 1000] h
  show ?thesis by auto
qed

text \<open>
  The claim as written promises \<open>min(out_len, 64)\<close> bytes. A hasher that absorbed 1025 bytes
  has one stack entry, and asked for 64 bytes it writes 32.
\<close>

theorem multi_chunk_output_is_32_bytes:
  "\<exists>h out. blake3_hasher_update (blake3_hasher_init auto_hasher) (replicate 1025 0) = Some h
     \<and> cv_stack_len h \<noteq> 0
     \<and> blake3_hasher_finalize_seek h 0 64 = Some out
     \<and> length out = 32 \<and> length out < min 64 (64 :: nat)"
proof -
  have a: "length (cv_stack auto_hasher) = 1760" by (simp add: auto_hasher_def)
  from stack_len_from_init [OF a, of "replicate 1025 0"] obtain h where
    h: "blake3_hasher_update (blake3_hasher_init auto_hasher) (replicate 1025 0) = Some h"
    and n: "unat (cv_stack_len h) = 1" and l: "length (cv_stack h) = 1760"
    by (auto simp: stack_len_after_def)
  from n have nz: "cv_stack_len h \<noteq> 0" by auto
  have b: "unat (cv_stack_len h) * 32 \<le> length (cv_stack h)" by (simp add: n l)
  have ne: "stack_entries h (unat (cv_stack_len h)) \<noteq> []"
    by (simp add: n stack_entries_def)
  from finalize_seek_multi_chunk [OF nz _ b, of 64 0] length_root_of_stack [OF ne] h nz
  show ?thesis by auto
qed

subsection \<open>Bounds of the chunk state\<close>

text \<open>
  C9: For every hasher state reachable by any init variant followed by any sequence of
  update calls (and resets), the active chunk state satisfies \<open>buf_len \<le> 64\<close> and
  \<open>blocks_compressed \<le> 15\<close>: the last block of a chunk stays in the buffer during update.
\<close>

theorem reachable_chunk_bounds:
  assumes "reachable h"
  shows "unat (buf_len (chunk h)) \<le> 64 \<and> unat (blocks_compressed (chunk h)) \<le> 15"
  using chunk_ok_bounds [OF reachable_chunk_ok [OF assms]] by simp



theorem reachable_chunk_bounds_witness:
  "\<exists>h. blake3_hasher_update (blake3_hasher_init auto_hasher) (replicate 1025 0) = Some h
     \<and> unat (buf_len (chunk h)) \<le> 64 \<and> unat (blocks_compressed (chunk h)) \<le> 15"
proof -
  have a: "length (cv_stack auto_hasher) = 1760" by (simp add: auto_hasher_def)
  from update_from_init [OF a, of "replicate 1025 0"] obtain h where
    h: "blake3_hasher_update (blake3_hasher_init auto_hasher) (replicate 1025 0) = Some h"
    by auto
  from reachable_chunk_bounds [OF reachable.update [OF reachable.init h]] h
  show ?thesis by blast
qed

subsection \<open>Known-answer inputs\<close>

lemma popcount_nat_97: "popcount_nat 97 = 3"
proof -
  have "popcount_nat 97 = 1 + popcount_nat 48" by (subst popcount_nat.simps) simp
  also have "popcount_nat 48 = popcount_nat 24" by (subst popcount_nat.simps) simp
  also have "popcount_nat 24 = popcount_nat 12" by (subst popcount_nat.simps) simp
  also have "popcount_nat 12 = popcount_nat 6" by (subst popcount_nat.simps) simp
  also have "popcount_nat 6 = popcount_nat 3" by (subst popcount_nat.simps) simp
  also have "popcount_nat 3 = 1 + popcount_nat 1" by (subst popcount_nat.simps) simp
  finally show ?thesis by (simp add: popcount_nat_1)
qed

text \<open>
  C1 names the test-vector inputs of 0, 1, 1023, 1024, 1025 and 100000 bytes. The input of
  100000 bytes has 98 chunks. \<^verbatim>\<open>blake3_hash\<close> returns on it; when its last byte has been
  absorbed the chunk counter is 97 and the stack holds four entries, and the digest is the
  combination, from the right, of these four entries with the output of the last chunk.
  In BLAKE3 the stack holds \<open>popcount(97) = 3\<close> subtrees at this point (of 64, 32 and 1
  chunks), so the tree that the code hashes is not the tree of BLAKE3.
\<close>

theorem blake3_hash_100000_tree:
  "\<exists>h. blake3_hasher_update (blake3_hasher_init auto_hasher) (test_input 100000) = Some h
       \<and> unat (chunk_counter (chunk h)) = 97
       \<and> unat (cv_stack_len h) = 4
       \<and> popcountll 97 = 3
       \<and> blake3_hash (test_input 100000)
           = Some (root_of_stack IV 0 (stack_entries h 4) (chunk_state_output (chunk h)))"
proof -
  have a: "length (cv_stack auto_hasher) = 1760" by (simp add: auto_hasher_def)
  have l: "length (test_input 100000) = 100000" by (simp add: test_input_def)
  have p: "popcountll 97 = 3" by (simp add: popcountll_def popcount_nat_97)
  from stack_len_from_init [OF a, of "test_input 100000"] l
  obtain h where h: "blake3_hasher_update (blake3_hasher_init auto_hasher) (test_input 100000) = Some h"
    and c: "unat (chunk_counter (chunk h)) = 97" and s: "unat (cv_stack_len h) = 4"
    and st: "length (cv_stack h) = 1760"
    by (auto simp: stack_len_after_def popcount_nat_97)
  from update_from_init [OF a, of "test_input 100000"] l h
  have k: "key h = IV" and f: "flags (chunk h) = 0" by auto
  from s have ne: "cv_stack_len h \<noteq> 0" by auto
  have ne': "stack_entries h 4 \<noteq> []" by (simp add: stack_entries_def)
  from finalize_seek_multi_chunk [OF ne, of 32 0] s st
  have "blake3_hasher_finalize_seek h 0 32
        = Some (take 32 (root_of_stack IV 0 (stack_entries h 4) (chunk_state_output (chunk h))))"
    by (simp add: k f)
  with length_root_of_stack [OF ne', of IV 0 "chunk_state_output (chunk h)"]
  have "blake3_hash (test_input 100000)
        = Some (root_of_stack IV 0 (stack_entries h 4) (chunk_state_output (chunk h)))"
    by (simp add: blake3_hash_def blake3_hasher_finalize_def h)
  with h c s p show ?thesis by blast
qed

end
